theory Spec2Isabelle
  imports Complex_Main
begin

section \<open>Combat entities (models.py)\<close>

text \<open>
  Python's unbounded integers are \<open>int\<close>; strings are \<open>string\<close>. The fields
  \<open>displayhp\<close> and \<open>boboffset\<close> of a Pokemon only drive the animation of the health bar
  (\<open>Pokemon.update\<close>); no battle function reads them, and \<open>cloneagent\<close> resets them to
  their defaults, so the record leaves them out.
\<close>

record Pokemon =
  name :: string
  ptype :: string
  maxhp :: int
  hp :: int
  atk :: int
  dfn :: int
  alive :: bool

text \<open>
  \<^verbatim>\<open>
  def takedamage(self, dmg):
      if not self.alive: return
      self.hp = max(0, self.hp - dmg)
      if self.hp == 0: self.alive = False
  def heal(self, amt):
      if not self.alive: return
      self.hp = min(self.maxhp, self.hp + amt)
  \<close>
  The mutation of \<open>self\<close> is explicit: each method returns the updated Pokemon.
\<close>

definition takedamage :: "Pokemon \<Rightarrow> int \<Rightarrow> Pokemon" where
  "takedamage p dmg =
     (if \<not> alive p then p
      else let p' = p\<lparr>hp := max 0 (hp p - dmg)\<rparr>
           in if hp p' = 0 then p'\<lparr>alive := False\<rparr> else p')"

definition heal :: "Pokemon \<Rightarrow> int \<Rightarrow> Pokemon" where
  "heal p amt = (if \<not> alive p then p else p\<lparr>hp := min (maxhp p) (hp p + amt)\<rparr>)"

text \<open>A sequence of calls on one Pokemon, applied from left to right.\<close>

datatype hpcall = TakeDamage int | Heal int

fun amount :: "hpcall \<Rightarrow> int" where
  "amount (TakeDamage d) = d"
| "amount (Heal a) = a"

fun docall :: "Pokemon \<Rightarrow> hpcall \<Rightarrow> Pokemon" where
  "docall p (TakeDamage d) = takedamage p d"
| "docall p (Heal a) = heal p a"

fun docalls :: "Pokemon \<Rightarrow> hpcall list \<Rightarrow> Pokemon" where
  "docalls p [] = p"
| "docalls p (c # cs) = docalls (docall p c) cs"

text \<open>The invariant of the data model: \<open>0 \<le> hp \<le> maxhp\<close>, and alive exactly when \<open>hp > 0\<close>.\<close>

definition hp_ok :: "Pokemon \<Rightarrow> bool" where
  "hp_ok p \<longleftrightarrow> 0 \<le> hp p \<and> hp p \<le> maxhp p \<and> (alive p \<longleftrightarrow> hp p \<noteq> 0)"

definition pikachu :: Pokemon where
  "pikachu = \<lparr>name = ''Pikachu'', ptype = ''Electric'', maxhp = 100, hp = 100,
               atk = 22, dfn = 10, alive = True\<rparr>"

section \<open>Configuration constants (config.py)\<close>

text \<open>
  \<^verbatim>\<open>
  GRIDW, GRIDH = 24, 11
  TYPEADV = {("Fire","Electric"): 1.3, ("Electric","Water"): 1.3, ("Water","Fire"): 1.3}
  FIELDBOOST = 1.2
  ELIXIRS = {"Small": (25, 15), "Medium": (50, 30), "Large": (80, 50)}
  DIRS = [(1, 0), (-1, 0), (0, 1), (0, -1)]
  \<close>
  Python floats are idealised as exact reals (\<open>1.3\<close> is \<open>13/10\<close>): the model does not
  follow the rounding of binary floating point. The constant dictionaries are association
  lists read with \<open>map_of\<close>.
\<close>

definition GRIDW :: int where "GRIDW = 24"
definition GRIDH :: int where "GRIDH = 11"

definition TYPEADV :: "((string \<times> string) \<times> real) list" where
  "TYPEADV = [((''Fire'', ''Electric''), 13/10),
              ((''Electric'', ''Water''), 13/10),
              ((''Water'', ''Fire''), 13/10)]"

definition FIELDBOOST :: real where "FIELDBOOST = 6/5"

definition ELIXIRS :: "(string \<times> (int \<times> int)) list" where
  "ELIXIRS = [(''Small'', (25, 15)), (''Medium'', (50, 30)), (''Large'', (80, 50))]"

definition DIRS :: "(int \<times> int) list" where
  "DIRS = [(1, 0), (-1, 0), (0, 1), (0, -1)]"

text \<open>\<open>key in TYPEADV\<close>\<close>

definition in_TYPEADV :: "string \<times> string \<Rightarrow> bool" where
  "in_TYPEADV k \<longleftrightarrow> map_of TYPEADV k \<noteq> None"

section \<open>Agents, battle state and actions (models.py)\<close>

text \<open>
  An agent's \<open>elixirs\<close> dictionary is an association list in insertion order (the order
  in which Python iterates over it). The fields \<open>position\<close>, \<open>targetpos\<close>, \<open>current_path\<close>
  and \<open>path_index\<close> belong to the catching phase and are not read by any battle function.
\<close>

record Agent =
  name :: string
  team :: "Pokemon list"
  coins :: int
  fuel :: int
  elixirs :: "(string \<times> int) list"

record BattleState =
  fieldtype :: string
  ashactive :: int
  rocketactive :: int

datatype BActEnum = ATTACK | DEFEND | SWAP | HEAL

text \<open>\<open>arg: Optional[Union[int, str]]\<close>\<close>

datatype actarg = NoArg | IntArg int | StrArg string

record BattleAction =
  kind :: BActEnum
  arg :: actarg

definition baction :: "BActEnum \<Rightarrow> BattleAction" where
  "baction k = \<lparr>kind = k, arg = NoArg\<rparr>"

section \<open>Python primitives\<close>

datatype py_error = IndexError | KeyError | ZeroDivisionError

text \<open>
  \<open>xs[i]\<close>: a negative index counts from the end, an index outside \<open>[-len, len)\<close> raises
  IndexError. \<open>pyidx\<close> gives the position read, or None where Python raises.
\<close>

definition pyidx :: "'a list \<Rightarrow> int \<Rightarrow> nat option" where
  "pyidx xs i =
     (let n = int (length xs)
      in if 0 \<le> i \<and> i < n then Some (nat i)
         else if - n \<le> i \<and> i < 0 then Some (nat (n + i))
         else None)"

text \<open>\<open>d.get(k, 0)\<close> and \<open>d[k] = v\<close> for a key already present.\<close>

definition dict_get0 :: "(string \<times> int) list \<Rightarrow> string \<Rightarrow> int" where
  "dict_get0 d k = (case map_of d k of None \<Rightarrow> 0 | Some v \<Rightarrow> v)"

definition dict_set :: "(string \<times> int) list \<Rightarrow> string \<Rightarrow> int \<Rightarrow> (string \<times> int) list" where
  "dict_set d k v = map (\<lambda>(k', v'). if k' = k then (k', v) else (k', v')) d"

text \<open>
  \<open>round(x)\<close> rounds to the nearest integer, a tie to the even neighbour;
  \<open>int(x)\<close> truncates towards zero.
\<close>

definition py_round :: "real \<Rightarrow> int" where
  "py_round x =
     (let f = \<lfloor>x\<rfloor>; d = x - of_int f
      in if d < 1/2 then f else if d > 1/2 then f + 1 else if even f then f else f + 1)"

definition py_int :: "real \<Rightarrow> int" where
  "py_int x = (if 0 \<le> x then \<lfloor>x\<rfloor> else \<lceil>x\<rceil>)"

text \<open>
  \<open>max(xs, key=f)\<close> on a non-empty list: the first element whose key is maximal.
\<close>

fun max_by :: "('a \<Rightarrow> int) \<Rightarrow> 'a \<Rightarrow> 'a list \<Rightarrow> 'a" where
  "max_by f best [] = best"
| "max_by f best (x # xs) = max_by f (if f best < f x then x else best) xs"

text \<open>
  The random source. \<open>random.uniform(0.8, 1.2)\<close> reads the process-wide generator; the
  model makes it explicit as the stream of the values the coming calls will return. One call
  returns the head and leaves the tail.
\<close>

type_synonym rng = "nat \<Rightarrow> real"

definition uniform :: "rng \<Rightarrow> real \<times> rng" where
  "uniform g = (g 0, \<lambda>i. g (Suc i))"

section \<open>Fuzzy logic (utils.py)\<close>

definition membership_low :: "real \<Rightarrow> real \<Rightarrow> real \<Rightarrow> real" where
  "membership_low v min_val max_val =
     (if v \<le> min_val then 1
      else if v \<ge> max_val then 0
      else (max_val - v) / (max_val - min_val))"

definition membership_medium :: "real \<Rightarrow> real \<Rightarrow> real \<Rightarrow> real \<Rightarrow> real" where
  "membership_medium v low mid high =
     (if v \<le> low \<or> v \<ge> high then 0
      else if v = mid then 1
      else if v < mid then (v - low) / (mid - low)
      else (high - v) / (high - mid))"

definition membership_high :: "real \<Rightarrow> real \<Rightarrow> real \<Rightarrow> real" where
  "membership_high v min_val max_val =
     (if v \<ge> max_val then 1
      else if v \<le> min_val then 0
      else (v - min_val) / (max_val - min_val))"

definition should_heal :: "real \<Rightarrow> bool \<Rightarrow> real \<Rightarrow> real" where
  "should_heal pokemon_hp_percent has_elixir enemy_hp_percent =
     (if \<not> has_elixir then 0
      else let hp_low = membership_low pokemon_hp_percent 20 50;
               hp_medium = membership_medium pokemon_hp_percent 30 50 70;
               hp_high = membership_high pokemon_hp_percent 60 80;
               enemy_low = membership_low enemy_hp_percent 20 50;
               enemy_high = membership_high enemy_hp_percent 50 80;
               rule1 = min hp_low (1 - enemy_low) * (9/10);
               rule2 = min hp_medium enemy_high * (6/10);
               rule3 = hp_high * 0;
               rule4 = min hp_low enemy_low * (4/10)
           in max (max (max rule1 rule2) rule3) rule4)"

definition should_swap :: "string \<Rightarrow> string \<Rightarrow> bool \<Rightarrow> real \<Rightarrow> real" where
  "should_swap active_type enemy_type bench_has_advantage active_hp_percent =
     (if \<not> bench_has_advantage then 0
      else let has_disadvantage = (if in_TYPEADV (enemy_type, active_type) then 1 else 0);
               hp_critical = membership_low active_hp_percent 10 30;
               hp_low = membership_low active_hp_percent 20 50;
               hp_high = membership_high active_hp_percent 50 80;
               rule1 = min hp_critical has_disadvantage * (95/100);
               rule2 = min hp_low has_disadvantage * (75/100);
               rule3 = has_disadvantage * (5/10);
               rule4 = min hp_high (1 - has_disadvantage) * 0
           in max (max (max rule1 rule2) rule3) rule4)"

section \<open>Legal actions (team\_rocket\_ai\_agent.py)\<close>

text \<open>
  The loop over \<open>enumerate(agent.team)\<close> that looks for the first living bench Pokemon
  with a type advantage over the opponent; \<open>i\<close> is the running index.
\<close>

fun find_swap :: "Pokemon list \<Rightarrow> int \<Rightarrow> int \<Rightarrow> string \<Rightarrow> int option" where
  "find_swap [] i activeidx opptype = None"
| "find_swap (p # ps) i activeidx opptype =
     (if i \<noteq> activeidx \<and> alive p \<and> in_TYPEADV (ptype p, opptype) then Some i
      else find_swap ps (i + 1) activeidx opptype)"

text \<open>
  The swap part: the candidate list after the first \<open>if bench_has_advantage\<close> block.
  \<open>hp / maxhp\<close> raises ZeroDivisionError when \<open>maxhp\<close> is 0.
\<close>

definition swap_part :: "Agent \<Rightarrow> int \<Rightarrow> Pokemon \<Rightarrow> Pokemon \<Rightarrow> py_error + BattleAction list" where
  "swap_part agent activeidx activepoke opppokemon =
     (let acts = [baction ATTACK, baction DEFEND]
      in case find_swap (team agent) 0 activeidx (ptype opppokemon) of
           None \<Rightarrow> Inr acts
         | Some best_swap_idx \<Rightarrow>
             if maxhp activepoke = 0 then Inl ZeroDivisionError
             else let hp_percent = (real_of_int (hp activepoke) / real_of_int (maxhp activepoke)) * 100;
                      swap_strength = should_swap (ptype activepoke) (ptype opppokemon) True hp_percent
                  in if swap_strength > 5/10
                     then Inr (acts @ [\<lparr>kind = SWAP, arg = IntArg best_swap_idx\<rparr>])
                     else Inr acts)"

text \<open>
  The heal part: the candidates appended by the second block. \<open>ELIXIRS[n]\<close> in the key
  function of \<open>max\<close> raises KeyError for an owned tier that is not in ELIXIRS.
\<close>

definition heal_part :: "Agent \<Rightarrow> Pokemon \<Rightarrow> Pokemon \<Rightarrow> py_error + BattleAction list" where
  "heal_part agent activepoke opppokemon =
     (let has_elixir = list_ex (\<lambda>kv. snd kv > 0) (elixirs agent)
      in if has_elixir \<and> hp activepoke < maxhp activepoke then
           if maxhp activepoke = 0 \<or> maxhp opppokemon = 0 then Inl ZeroDivisionError
           else let hp_percent = (real_of_int (hp activepoke) / real_of_int (maxhp activepoke)) * 100;
                    enemy_hp_percent = (real_of_int (hp opppokemon) / real_of_int (maxhp opppokemon)) * 100;
                    heal_strength = should_heal hp_percent True enemy_hp_percent
                in if heal_strength > 4/10 then
                     (case map fst (filter (\<lambda>kv. snd kv > 0) (elixirs agent)) of
                        [] \<Rightarrow> Inr []
                      | n # ns \<Rightarrow>
                          if list_ex (\<lambda>m. map_of ELIXIRS m = None) (n # ns) then Inl KeyError
                          else Inr [\<lparr>kind = HEAL,
                                     arg = StrArg (max_by (\<lambda>m. fst (the (map_of ELIXIRS m))) n ns)\<rparr>])
                   else Inr []
         else Inr [])"

definition legalactions :: "Agent \<Rightarrow> int \<Rightarrow> Pokemon \<Rightarrow> py_error + BattleAction list" where
  "legalactions agent activeidx opppokemon =
     (case pyidx (team agent) activeidx of
        None \<Rightarrow> Inl IndexError
      | Some j \<Rightarrow>
          let activepoke = team agent ! j
          in case swap_part agent activeidx activepoke opppokemon of
               Inl e \<Rightarrow> Inl e
             | Inr acts \<Rightarrow>
                 (case heal_part agent activepoke opppokemon of
                    Inl e \<Rightarrow> Inl e
                  | Inr hs \<Rightarrow> Inr (acts @ hs)))"

section \<open>Battle transition (phase\_3.py)\<close>

text \<open>
  \<^verbatim>\<open>
  def computedamage(attacker, defender, fieldtype):
      base = max(5, attacker.atk - defender.dfn // 2)
      mult = 1.0
      if (attacker.ptype, defender.ptype) in TYPEADV:
          mult *= TYPEADV[(attacker.ptype, defender.ptype)]
      if attacker.ptype == fieldtype:
          mult *= FIELDBOOST
      mult *= random.uniform(0.8, 1.2)
      return int(round(base * mult))
  \<close>
  \<open>damage_of\<close> is the function of the multiplier drawn; \<open>computedamage\<close> draws it.
\<close>

definition damage_of :: "Pokemon \<Rightarrow> Pokemon \<Rightarrow> string \<Rightarrow> real \<Rightarrow> int" where
  "damage_of attacker defender ftype r =
     (let base = max 5 (atk attacker - dfn defender div 2);
          mult = 1;
          mult = (case map_of TYPEADV (ptype attacker, ptype defender) of
                    None \<Rightarrow> mult | Some m \<Rightarrow> mult * m);
          mult = (if ptype attacker = ftype then mult * FIELDBOOST else mult);
          mult = mult * r
      in py_round (real_of_int base * mult))"

definition computedamage :: "Pokemon \<Rightarrow> Pokemon \<Rightarrow> string \<Rightarrow> rng \<Rightarrow> int \<times> rng" where
  "computedamage attacker defender ftype g =
     (case uniform g of (r, g') \<Rightarrow> (damage_of attacker defender ftype r, g'))"

text \<open>
  The nested function \<open>apply(agent, act, activeidxref)\<close> of \<open>stepbattle_simulation\<close>: the
  result is the agent and the active index after the sub-action.
  \<^verbatim>\<open>
  if act.kind == BActEnum.SWAP and isinstance(act.arg, int):
      if 0 <= act.arg < len(agent.team) and agent.team[act.arg].alive:
          activeidxref[0] = act.arg
  elif act.kind == BActEnum.HEAL and isinstance(act.arg, str) and agent.elixirs.get(act.arg, 0) > 0:
      healamt, _ = ELIXIRS[act.arg]
      agent.team[activeidxref[0]].heal(healamt)
      agent.elixirs[act.arg] -= 1
  \<close>
\<close>

definition apply_act :: "Agent \<Rightarrow> BattleAction \<Rightarrow> int \<Rightarrow> py_error + (Agent \<times> int)" where
  "apply_act agent a activeidx =
     (case (kind a, arg a) of
        (SWAP, IntArg i) \<Rightarrow>
          if 0 \<le> i \<and> i < int (length (team agent)) \<and> alive (team agent ! nat i)
          then Inr (agent, i) else Inr (agent, activeidx)
      | (HEAL, StrArg s) \<Rightarrow>
          if dict_get0 (elixirs agent) s > 0 then
            (case map_of ELIXIRS s of
               None \<Rightarrow> Inl KeyError
             | Some (healamt, price) \<Rightarrow>
                 (case pyidx (team agent) activeidx of
                    None \<Rightarrow> Inl IndexError
                  | Some j \<Rightarrow>
                      Inr (agent\<lparr>team := (team agent)[j := heal (team agent ! j) healamt],
                                 elixirs := dict_set (elixirs agent) s (dict_get0 (elixirs agent) s - 1)\<rparr>,
                           activeidx)))
          else Inr (agent, activeidx)
      | _ \<Rightarrow> Inr (agent, activeidx))"

text \<open>
  One attack of \<open>stepbattle_simulation\<close>:
  \<^verbatim>\<open>
  if atkact.kind == BActEnum.ATTACK and atk.team[aidx].alive and dfd.team[didx].alive:
      dmg = computedamage(atk.team[aidx], dfd.team[didx], bs.fieldtype)
      if dfddef:
          dmg = int(dmg * 0.5)
      dfd.team[didx].takedamage(dmg)
  \<close>
  The conjunction is evaluated from left to right and stops at the first false conjunct,
  so the defender's index is read only when the attacker is alive. The result is the
  defender's side after the attack and the random source.
\<close>

definition defended :: "bool \<Rightarrow> int \<Rightarrow> int" where
  "defended dfddef dmg = (if dfddef then py_int (real_of_int dmg * (1/2)) else dmg)"

definition attack :: "BattleAction \<Rightarrow> Agent \<Rightarrow> int \<Rightarrow> Agent \<Rightarrow> int \<Rightarrow> bool \<Rightarrow> string \<Rightarrow> rng
                      \<Rightarrow> py_error + (Agent \<times> rng)" where
  "attack atkact atker aidx dfd didx dfddef ftype g =
     (if kind atkact = ATTACK then
        (case pyidx (team atker) aidx of
           None \<Rightarrow> Inl IndexError
         | Some i \<Rightarrow>
             if alive (team atker ! i) then
               (case pyidx (team dfd) didx of
                  None \<Rightarrow> Inl IndexError
                | Some j \<Rightarrow>
                    if alive (team dfd ! j) then
                      (case computedamage (team atker ! i) (team dfd ! j) ftype g of
                         (dmg, g') \<Rightarrow>
                           Inr (dfd\<lparr>team := (team dfd)[j := takedamage (team dfd ! j) (defended dfddef dmg)]\<rparr>, g'))
                    else Inr (dfd, g))
             else Inr (dfd, g))
      else Inr (dfd, g))"

text \<open>
  The replacement of a fainted active Pokemon:
  \<^verbatim>\<open>
  if not agent.team[idx].alive:
      for i, p in enumerate(agent.team):
          if p.alive:
              idx = i
              break
  \<close>
\<close>

fun first_alive :: "Pokemon list \<Rightarrow> int \<Rightarrow> int option" where
  "first_alive [] i = None"
| "first_alive (p # ps) i = (if alive p then Some i else first_alive ps (i + 1))"

definition replace_fainted :: "Agent \<Rightarrow> int \<Rightarrow> py_error + int" where
  "replace_fainted agent idx =
     (case pyidx (team agent) idx of
        None \<Rightarrow> Inl IndexError
      | Some j \<Rightarrow>
          if \<not> alive (team agent ! j) then
            (case first_alive (team agent) 0 of None \<Rightarrow> Inr idx | Some i \<Rightarrow> Inr i)
          else Inr idx)"

text \<open>
  \<open>stepbattle_simulation(ash, rocket, bs, ashact, rocketact)\<close> mutates its first three
  arguments; the model returns them, with the random source. \<open>Inl\<close> is the exception that
  leaves the function.
\<close>

definition stepbattle_simulation ::
  "Agent \<Rightarrow> Agent \<Rightarrow> BattleState \<Rightarrow> BattleAction \<Rightarrow> BattleAction \<Rightarrow> rng
   \<Rightarrow> py_error + (Agent \<times> Agent \<times> BattleState \<times> rng)" where
  "stepbattle_simulation ash rocket bs ashact rocketact g =
     (case apply_act ash ashact (ashactive bs) of
        Inl e \<Rightarrow> Inl e
      | Inr (ash1, ashidx) \<Rightarrow>
     (case apply_act rocket rocketact (rocketactive bs) of
        Inl e \<Rightarrow> Inl e
      | Inr (rocket1, rocidx) \<Rightarrow>
     (let ashdef = (kind ashact = DEFEND); rocdef = (kind rocketact = DEFEND)
      in case attack ashact ash1 ashidx rocket1 rocidx rocdef (fieldtype bs) g of
        Inl e \<Rightarrow> Inl e
      | Inr (rocket2, g1) \<Rightarrow>
     (case attack rocketact rocket2 rocidx ash1 ashidx ashdef (fieldtype bs) g1 of
        Inl e \<Rightarrow> Inl e
      | Inr (ash2, g2) \<Rightarrow>
     (case replace_fainted ash2 ashidx of
        Inl e \<Rightarrow> Inl e
      | Inr ashidx' \<Rightarrow>
     (case replace_fainted rocket2 rocidx of
        Inl e \<Rightarrow> Inl e
      | Inr rocidx' \<Rightarrow>
          Inr (ash2, rocket2, bs\<lparr>ashactive := ashidx', rocketactive := rocidx'\<rparr>, g2)))))))"

section \<open>Predicates of the claims and sample data\<close>




definition charmander :: Pokemon where
  "charmander = \<lparr>Pokemon.name = ''Charmander'', ptype = ''Fire'', maxhp = 100, hp = 100,
                  atk = 22, dfn = 10, alive = True\<rparr>"
definition squirtle :: Pokemon where
  "squirtle = \<lparr>Pokemon.name = ''Squirtle'', ptype = ''Water'', maxhp = 100, hp = 100,
                  atk = 22, dfn = 10, alive = True\<rparr>"
definition fainted :: "Pokemon \<Rightarrow> Pokemon" where
  "fainted p = p\<lparr>hp := 0, alive := False\<rparr>"
definition mkagent :: "string \<Rightarrow> Pokemon list \<Rightarrow> (string \<times> int) list \<Rightarrow> Agent" where
  "mkagent n ps es = \<lparr>Agent.name = n, team = ps, coins = 0, fuel = 0, elixirs = es\<rparr>"
definition const_rng :: "real \<Rightarrow> rng" where
  "const_rng r = (\<lambda>i. r)"


definition ash2 :: Agent where
  "ash2 = mkagent ''Ash'' [fainted pikachu, charmander] []"
definition rocket1 :: Agent where
  "rocket1 = mkagent ''Team Rocket'' [squirtle] []"

section \<open>Adversarial search (team\_rocket\_ai\_agent.py)\<close>

text \<open>
  \<^verbatim>\<open>
  def evalstate(ash, rocket, bs):
      ashhp = sum(p.hp for p in ash.team)
      rockethp = sum(p.hp for p in rocket.team)
      ashalive = sum(1 for p in ash.team if p.alive)
      rocketalive = sum(1 for p in rocket.team if p.alive)
      return (ashhp - rockethp) + (ashalive - rocketalive) * 30
  \<close>
  In this model of values \<open>cloneagent\<close> builds an equal agent; the store in which a clone
  is a different object is the subject of the section on the object store.

  \<open>random.shuffle(actions)\<close> is the parameter \<open>shuf\<close>: the order given to the candidate
  list of each node, the node being named by its path from the root (the positions of the
  actions taken, innermost first). The values \<open>-1e9\<close> and \<open>1e9\<close> are the integers
  \<open>- 10 ^ 9\<close> and \<open>10 ^ 9\<close>, to which Python compares the integer scores exactly. The depth
  is a natural number.

  The body of \<open>for act in actions\<close> is the function \<open>child\<close> handed to \<open>search_loop\<close>,
  which keeps \<open>bestval\<close>, \<open>bestact\<close>, \<open>alpha\<close>, \<open>beta\<close> and stops at \<open>beta <= alpha\<close>.
  The loop is written once for any state \<open>'g\<close> threaded through the calls and any error
  \<open>'e\<close>: the random source here, the object store with it further down.
\<close>

definition evalstate :: "Agent \<Rightarrow> Agent \<Rightarrow> BattleState \<Rightarrow> int" where
  "evalstate ash rocket bs =
     (let ashhp = sum_list (map hp (team ash));
          rockethp = sum_list (map hp (team rocket));
          ashalive = int (length (filter alive (team ash)));
          rocketalive = int (length (filter alive (team rocket)))
      in (ashhp - rockethp) + (ashalive - rocketalive) * 30)"

definition cloneagent :: "Agent \<Rightarrow> Agent" where
  "cloneagent a =
     \<lparr>Agent.name = Agent.name a,
      team = map (\<lambda>p. \<lparr>Pokemon.name = Pokemon.name p, ptype = ptype p, maxhp = maxhp p, hp = hp p,
                         atk = atk p, dfn = dfn p, alive = alive p\<rparr>) (team a),
      coins = coins a, fuel = fuel a, elixirs = elixirs a\<rparr>"

type_synonym shuffle = "nat list \<Rightarrow> BattleAction list \<Rightarrow> BattleAction list"

type_synonym ('e, 'g) child_search = "BattleAction \<Rightarrow> nat \<Rightarrow> int \<Rightarrow> int \<Rightarrow> 'g \<Rightarrow> 'e + (int \<times> 'g)"

fun search_loop :: "bool \<Rightarrow> ('e, 'g) child_search \<Rightarrow> BattleAction list \<Rightarrow> nat \<Rightarrow> int \<Rightarrow> BattleAction option
                    \<Rightarrow> int \<Rightarrow> int \<Rightarrow> 'g \<Rightarrow> 'e + (int \<times> BattleAction option \<times> 'g)" where
  "search_loop maximizing child [] k bestval bestact alpha beta g = Inr (bestval, bestact, g)"
| "search_loop maximizing child (a # rest) k bestval bestact alpha beta g =
     (case child a k alpha beta g of
        Inl e \<Rightarrow> Inl e
      | Inr (val, g') \<Rightarrow>
          (let better = (if maximizing then val > bestval else val < bestval);
               bestval' = (if better then val else bestval);
               bestact' = (if better then Some a else bestact);
               alpha' = (if maximizing then max alpha bestval' else alpha);
               beta' = (if maximizing then beta else min beta bestval')
           in if beta' \<le> alpha' then Inr (bestval', bestact', g')
              else search_loop maximizing child rest (k + 1) bestval' bestact' alpha' beta' g'))"

definition step_child :: "Agent \<Rightarrow> Agent \<Rightarrow> BattleState \<Rightarrow> bool \<Rightarrow> BattleAction \<Rightarrow> rng
                          \<Rightarrow> py_error + (Agent \<times> Agent \<times> BattleState \<times> rng)" where
  "step_child a b s maximizing act g =
     (let aclone = cloneagent a; bclone = cloneagent b;
          sclone = \<lparr>fieldtype = fieldtype s, ashactive = ashactive s, rocketactive = rocketactive s\<rparr>;
          myact = act;
          oppact = \<lparr>kind = ATTACK, arg = NoArg\<rparr>;
          ashact = (if maximizing then myact else oppact);
          rocketact = (if maximizing then oppact else myact)
      in stepbattle_simulation aclone bclone sclone ashact rocketact g)"

definition leaf_value :: "bool \<Rightarrow> Agent \<Rightarrow> Agent \<Rightarrow> BattleState \<Rightarrow> int" where
  "leaf_value meisash a b s =
     (let score = evalstate (if meisash then a else b) (if meisash then b else a) s
      in if meisash then score else - score)"

definition is_terminal :: "nat \<Rightarrow> Agent \<Rightarrow> Agent \<Rightarrow> bool" where
  "is_terminal ply a b \<longleftrightarrow>
     ply = 0 \<or> list_all (\<lambda>p. \<not> alive p) (team a) \<or> list_all (\<lambda>p. \<not> alive p) (team b)"

definition node_actions :: "Agent \<Rightarrow> Agent \<Rightarrow> BattleState \<Rightarrow> bool \<Rightarrow> py_error + BattleAction list" where
  "node_actions a b s maximizing =
     (let currentactiveidx = (if maximizing then ashactive s else rocketactive s);
          oppactiveidx = (if maximizing then rocketactive s else ashactive s);
          agentforactions = (if maximizing then a else b);
          oppforactions = (if maximizing then b else a)
      in case pyidx (team oppforactions) oppactiveidx of
           None \<Rightarrow> Inl IndexError
         | Some j \<Rightarrow> legalactions agentforactions currentactiveidx (team oppforactions ! j))"

function recurse :: "shuffle \<Rightarrow> bool \<Rightarrow> nat \<Rightarrow> Agent \<Rightarrow> Agent \<Rightarrow> BattleState \<Rightarrow> bool \<Rightarrow> int \<Rightarrow> int
                \<Rightarrow> nat list \<Rightarrow> rng \<Rightarrow> py_error + (int \<times> BattleAction option \<times> rng)" where
  "recurse shuf meisash ply a b s maximizing alpha beta path g =
     (if is_terminal ply a b then Inr (leaf_value meisash a b s, None, g)
      else
        (let bestval = (if maximizing then - (10 ^ 9) else 10 ^ 9);
             bestact = None
         in case node_actions a b s maximizing of
              Inl e \<Rightarrow> Inl e
            | Inr actions \<Rightarrow>
                search_loop maximizing
                  (\<lambda>act k alpha beta g.
                     case step_child a b s maximizing act g of
                       Inl e \<Rightarrow> Inl e
                     | Inr (aclone, bclone, sclone, g') \<Rightarrow>
                         (case recurse shuf meisash (ply - 1) aclone bclone sclone (\<not> maximizing)
                                 alpha beta (k # path) g' of
                            Inl e \<Rightarrow> Inl e
                          | Inr (val, _, g'') \<Rightarrow> Inr (val, g'')))
                  (shuf path actions) 0 bestval bestact alpha beta g))"
  by pat_completeness auto
termination
  by (relation "measure (\<lambda>(shuf, meisash, ply, rest). ply)") (auto simp: is_terminal_def)

text \<open>
  Pure minimax: the same recursion without the windows \<open>alpha\<close>, \<open>beta\<close> and without
  the \<open>break\<close>, so that every candidate of every node is explored.
\<close>

type_synonym child_minimax = "BattleAction \<Rightarrow> nat \<Rightarrow> rng \<Rightarrow> py_error + (int \<times> rng)"

fun minimax_loop :: "bool \<Rightarrow> child_minimax \<Rightarrow> BattleAction list \<Rightarrow> nat \<Rightarrow> int \<Rightarrow> BattleAction option
                     \<Rightarrow> rng \<Rightarrow> py_error + (int \<times> BattleAction option \<times> rng)" where
  "minimax_loop maximizing child [] k bestval bestact g = Inr (bestval, bestact, g)"
| "minimax_loop maximizing child (a # rest) k bestval bestact g =
     (case child a k g of
        Inl e \<Rightarrow> Inl e
      | Inr (val, g') \<Rightarrow>
          (let better = (if maximizing then val > bestval else val < bestval);
               bestval' = (if better then val else bestval);
               bestact' = (if better then Some a else bestact)
           in minimax_loop maximizing child rest (k + 1) bestval' bestact' g'))"

function minimax :: "shuffle \<Rightarrow> bool \<Rightarrow> nat \<Rightarrow> Agent \<Rightarrow> Agent \<Rightarrow> BattleState \<Rightarrow> bool
                     \<Rightarrow> nat list \<Rightarrow> rng \<Rightarrow> py_error + (int \<times> BattleAction option \<times> rng)" where
  "minimax shuf meisash ply a b s maximizing path g =
     (if is_terminal ply a b then Inr (leaf_value meisash a b s, None, g)
      else
        (let bestval = (if maximizing then - (10 ^ 9) else 10 ^ 9);
             bestact = None
         in case node_actions a b s maximizing of
              Inl e \<Rightarrow> Inl e
            | Inr actions \<Rightarrow>
                minimax_loop maximizing
                  (\<lambda>act k g.
                     case step_child a b s maximizing act g of
                       Inl e \<Rightarrow> Inl e
                     | Inr (aclone, bclone, sclone, g') \<Rightarrow>
                         (case minimax shuf meisash (ply - 1) aclone bclone sclone (\<not> maximizing)
                                 (k # path) g' of
                            Inl e \<Rightarrow> Inl e
                          | Inr (val, _, g'') \<Rightarrow> Inr (val, g'')))
                  (shuf path actions) 0 bestval bestact g))"
  by pat_completeness auto
termination
  by (relation "measure (\<lambda>(shuf, meisash, ply, rest). ply)") (auto simp: is_terminal_def)

text \<open>
  \<^verbatim>\<open>
  _, action = recurse(me if meisash else opp, opp if meisash else me, bs, depth, meisash, -1e9, 1e9)
  return action or BattleAction(BActEnum.ATTACK)
  \<close>
\<close>

definition root_search :: "shuffle \<Rightarrow> Agent \<Rightarrow> Agent \<Rightarrow> BattleState \<Rightarrow> bool \<Rightarrow> nat \<Rightarrow> rng
                          \<Rightarrow> py_error + (int \<times> BattleAction option \<times> rng)" where
  "root_search shuf me opp bs meisash depth g =
     recurse shuf meisash depth (if meisash then me else opp) (if meisash then opp else me) bs
       meisash (- (10 ^ 9)) (10 ^ 9) [] g"

definition root_minimax :: "shuffle \<Rightarrow> Agent \<Rightarrow> Agent \<Rightarrow> BattleState \<Rightarrow> bool \<Rightarrow> nat \<Rightarrow> rng
                          \<Rightarrow> py_error + (int \<times> BattleAction option \<times> rng)" where
  "root_minimax shuf me opp bs meisash depth g =
     minimax shuf meisash depth (if meisash then me else opp) (if meisash then opp else me) bs
       meisash [] g"

definition decide_action :: "shuffle \<Rightarrow> Agent \<Rightarrow> Agent \<Rightarrow> BattleState \<Rightarrow> bool \<Rightarrow> nat \<Rightarrow> rng
                          \<Rightarrow> py_error + (BattleAction \<times> rng)" where
  "decide_action shuf me opp bs meisash depth g =
     (case root_search shuf me opp bs meisash depth g of
        Inl e \<Rightarrow> Inl e
      | Inr (v, action, g') \<Rightarrow>
          Inr (case action of None \<Rightarrow> \<lparr>kind = ATTACK, arg = NoArg\<rparr> | Some a \<Rightarrow> a, g'))"

definition root_value :: "py_error + (int \<times> BattleAction option \<times> rng) \<Rightarrow> py_error + int" where
  "root_value res = (case res of Inl e \<Rightarrow> Inl e | Inr (v, action, g) \<Rightarrow> Inr v)"


text \<open>
  \<open>soft al be v w\<close>: what a search with window \<open>(al, be)\<close> that returns \<open>w\<close> tells about
  the minimax value \<open>v\<close>: a bound when \<open>w\<close> is outside the window, the value itself inside.
\<close>

definition soft :: "int \<Rightarrow> int \<Rightarrow> int \<Rightarrow> int \<Rightarrow> bool" where
  "soft al be v w \<longleftrightarrow> (w \<le> al \<longrightarrow> v \<le> w) \<and> (al < w \<and> w < be \<longrightarrow> v = w) \<and> (be \<le> w \<longrightarrow> w \<le> v)"

definition const_stream :: "rng \<Rightarrow> bool" where
  "const_stream g \<longleftrightarrow> (\<forall>i. g i = g 0)"

definition idshuf :: shuffle where "idshuf path acts = acts"

definition weakmon :: "string \<Rightarrow> int \<Rightarrow> int \<Rightarrow> int \<Rightarrow> Pokemon" where
  "weakmon t m h a = \<lparr>Pokemon.name = ''Mon'', ptype = t, maxhp = m, hp = h, atk = a, dfn = 10, alive = True\<rparr>"
definition ashA :: Agent where
  "ashA = mkagent ''Ash'' [weakmon ''Fire'' 100 30 10] [(''Large'', 1)]"
definition rocketA :: Agent where
  "rocketA = mkagent ''Team Rocket'' [weakmon ''Fire'' 100 100 10] []"
definition ashBig :: Agent where
  "ashBig = mkagent ''Ash'' [weakmon ''Fire'' 3000000000 3000000000 10] []"
definition rocketBig :: Agent where
  "rocketBig = mkagent ''Team Rocket'' [weakmon ''Fire'' 100 100 100] []"
definition bsW :: BattleState where
  "bsW = \<lparr>fieldtype = ''Water'', ashactive = 0, rocketactive = 0\<rparr>"
definition ninth_draw :: "real \<Rightarrow> rng" where
  "ninth_draw x = (\<lambda>i. if i = 8 then x else 1)"

section \<open>Grid and pathfinder (utils.py)\<close>

type_synonym cell = "int \<times> int"
type_synonym Grid = "int list list"

text \<open>
  \<^verbatim>\<open>
  def inbounds(x, y): return 0 <= x < GRIDW and 0 <= y < GRIDH
  def manhattan(a, b): return abs(a[0] - b[0]) + abs(a[1] - b[1])
  \<close>
\<close>

definition inbounds :: "int \<Rightarrow> int \<Rightarrow> bool" where
  "inbounds x y \<longleftrightarrow> 0 \<le> x \<and> x < GRIDW \<and> 0 \<le> y \<and> y < GRIDH"

definition manhattan :: "cell \<Rightarrow> cell \<Rightarrow> int" where
  "manhattan a b = \<bar>fst a - fst b\<bar> + \<bar>snd a - snd b\<bar>"

text \<open>\<open>grid[ny][nx]\<close>\<close>

definition grid_get :: "Grid \<Rightarrow> int \<Rightarrow> int \<Rightarrow> py_error + int" where
  "grid_get grid nx ny =
     (case pyidx grid ny of
        None \<Rightarrow> Inl IndexError
      | Some j \<Rightarrow>
          (case pyidx (grid ! j) nx of
             None \<Rightarrow> Inl IndexError
           | Some i \<Rightarrow> Inr (grid ! j ! i)))"

text \<open>
  The variables of the search: \<open>openset\<close> (a Python set, here a list without duplicates
  whose order means nothing), and the dictionaries \<open>came\<close>, \<open>g\<close> and \<open>f\<close> as maps.
\<close>

record astate =
  openset :: "cell list"
  came :: "cell \<rightharpoonup> cell"
  gscore :: "cell \<rightharpoonup> int"
  fscore :: "cell \<rightharpoonup> int"

text \<open>\<open>d.get(n, 1e9)\<close>\<close>

definition get_or_1e9 :: "(cell \<rightharpoonup> int) \<Rightarrow> cell \<Rightarrow> int" where
  "get_or_1e9 d n = (case d n of None \<Rightarrow> 10 ^ 9 | Some v \<Rightarrow> v)"

text \<open>
  The body of \<open>for dx, dy in DIRS\<close> for one direction:
  \<^verbatim>\<open>
  nx, ny = cx + dx, cy + dy
  if not inbounds(nx, ny) or grid[ny][nx] == 1: continue
  tentative = g.get(current, 1e9) + 1
  if tentative < g.get((nx, ny), 1e9):
      came[(nx, ny)] = current
      g[(nx, ny)] = tentative
      f[(nx, ny)] = tentative + manhattan((nx, ny), goal)
      openset.add((nx, ny))
  \<close>
\<close>

definition relax :: "Grid \<Rightarrow> cell \<Rightarrow> cell \<Rightarrow> astate \<Rightarrow> int \<times> int \<Rightarrow> py_error + astate" where
  "relax grid goal current st d =
     (let nx = fst current + fst d; ny = snd current + snd d
      in if \<not> inbounds nx ny then Inr st
         else case grid_get grid nx ny of
                Inl e \<Rightarrow> Inl e
              | Inr v \<Rightarrow>
                  if v = 1 then Inr st
                  else let tentative = get_or_1e9 (gscore st) current + 1
                       in if tentative < get_or_1e9 (gscore st) (nx, ny)
                          then Inr (st\<lparr>came := (came st)((nx, ny) \<mapsto> current),
                                       gscore := (gscore st)((nx, ny) \<mapsto> tentative),
                                       fscore := (fscore st)((nx, ny) \<mapsto> tentative + manhattan (nx, ny) goal),
                                       openset := List.insert (nx, ny) (openset st)\<rparr>)
                          else Inr st)"

fun relax_all :: "Grid \<Rightarrow> cell \<Rightarrow> cell \<Rightarrow> astate \<Rightarrow> (int \<times> int) list \<Rightarrow> py_error + astate" where
  "relax_all grid goal current st [] = Inr st"
| "relax_all grid goal current st (d # ds) =
     (case relax grid goal current st d of
        Inl e \<Rightarrow> Inl e
      | Inr st' \<Rightarrow> relax_all grid goal current st' ds)"

text \<open>
  \<open>current = min(openset, key=lambda n: f.get(n, 1e9))\<close> returns the first element, in
  the iteration order of the set, whose key is minimal. That order is not fixed by the
  language, so the choice among the elements of minimal key is a parameter: \<open>tie k\<close> names
  the element taken in the \<open>k\<close>-th iteration of the loop (an answer outside the candidates
  is replaced by the first candidate).
\<close>

definition min_candidates :: "astate \<Rightarrow> cell list" where
  "min_candidates st =
     filter (\<lambda>n. list_all (\<lambda>m. get_or_1e9 (fscore st) n \<le> get_or_1e9 (fscore st) m) (openset st))
       (openset st)"

definition pick_one :: "(cell list \<Rightarrow> cell) \<Rightarrow> cell list \<Rightarrow> cell" where
  "pick_one t cs = (if t cs \<in> set cs then t cs else hd cs)"

text \<open>
  The reconstruction of the path; the loop runs for ever on a cyclic \<open>came\<close>, which is
  the value \<open>None\<close>:
  \<^verbatim>\<open>
  path = [current]
  while current in came:
      current = came[current]
      path.append(current)
  path.reverse()
  return path
  \<close>
\<close>

partial_function (option) walk_back :: "(cell \<rightharpoonup> cell) \<Rightarrow> cell \<Rightarrow> cell list \<Rightarrow> cell list option" where
  "walk_back cm current path =
     (case cm current of
        None \<Rightarrow> Some (rev path)
      | Some c \<Rightarrow> walk_back cm c (path @ [c]))"

declare walk_back.simps [code]

text \<open>The loop \<open>while openset\<close>; \<open>return []\<close> when the set is empty.\<close>

partial_function (option) astar_loop ::
  "(nat \<Rightarrow> cell list \<Rightarrow> cell) \<Rightarrow> Grid \<Rightarrow> cell \<Rightarrow> nat \<Rightarrow> astate \<Rightarrow> (py_error + cell list) option" where
  "astar_loop tie grid goal k st =
     (if openset st = [] then Some (Inr [])
      else let current = pick_one (tie k) (min_candidates st)
           in if current = goal then
                (case walk_back (came st) current [current] of
                   None \<Rightarrow> None
                 | Some path \<Rightarrow> Some (Inr path))
              else
                (case relax_all grid goal current
                        (st\<lparr>openset := removeAll current (openset st)\<rparr>) DIRS of
                   Inl e \<Rightarrow> Some (Inl e)
                 | Inr st' \<Rightarrow> astar_loop tie grid goal (k + 1) st'))"

declare astar_loop.simps [code]

definition astar :: "(nat \<Rightarrow> cell list \<Rightarrow> cell) \<Rightarrow> Grid \<Rightarrow> cell \<Rightarrow> cell \<Rightarrow> (py_error + cell list) option" where
  "astar tie grid start goal =
     (if start = goal then Some (Inr [start])
      else astar_loop tie grid goal 0
             \<lparr>openset = [start], came = Map.empty, gscore = [start \<mapsto> 0],
              fscore = [start \<mapsto> manhattan start goal]\<rparr>)"

text \<open>
  The notions of the claim: a grid of GRIDH rows of GRIDW cells, an unblocked cell (in
  bounds and not 1), 4-adjacency, and a route from \<open>s\<close> to \<open>t\<close>: a non-empty list of
  unblocked cells from \<open>s\<close> to \<open>t\<close>, each adjacent to the next.
\<close>

definition grid_ok :: "Grid \<Rightarrow> bool" where
  "grid_ok grid \<longleftrightarrow> int (length grid) = GRIDH \<and> (\<forall>row \<in> set grid. int (length row) = GRIDW)"

definition cell_free :: "Grid \<Rightarrow> cell \<Rightarrow> bool" where
  "cell_free grid c \<longleftrightarrow>
     inbounds (fst c) (snd c)
     \<and> (case grid_get grid (fst c) (snd c) of Inl e \<Rightarrow> False | Inr v \<Rightarrow> v \<noteq> 1)"

definition adjacent :: "cell \<Rightarrow> cell \<Rightarrow> bool" where
  "adjacent c d \<longleftrightarrow> (fst d - fst c, snd d - snd c) \<in> set DIRS"

fun steps_ok :: "cell list \<Rightarrow> bool" where
  "steps_ok [] = True"
| "steps_ok [c] = True"
| "steps_ok (c # d # cs) = (adjacent c d \<and> steps_ok (d # cs))"

definition route :: "Grid \<Rightarrow> cell \<Rightarrow> cell \<Rightarrow> cell list \<Rightarrow> bool" where
  "route grid s t p \<longleftrightarrow>
     p \<noteq> [] \<and> hd p = s \<and> last p = t \<and> list_all (cell_free grid) p \<and> steps_ok p"

definition border_unblocked :: "Grid \<Rightarrow> bool" where
  "border_unblocked grid \<longleftrightarrow>
     list_all (\<lambda>c. fst c = 0 \<or> fst c = GRIDW - 1 \<or> snd c = 0 \<or> snd c = GRIDH - 1
                    \<longrightarrow> cell_free grid c)
       (List.product [0..GRIDW - 1] [0..GRIDH - 1])"

definition demo_route :: "cell list" where
  "demo_route = [(1, 2), (1, 1), (1, 0), (2, 0), (3, 0), (4, 0), (5, 0), (5, 1), (5, 2)]"

definition first_tie :: "nat \<Rightarrow> cell list \<Rightarrow> cell" where
  "first_tie k cs = hd cs"

definition row0 :: "int list" where "row0 = replicate 24 0"
definition demo_grid :: Grid where
  "demo_grid = [row0, row0[3 := 1], row0[3 := 1], row0[3 := 1], row0, row0, row0, row0, row0, row0, row0]"


text \<open>
  The invariant of the loop. \<open>X\<close> holds the cell being expanded, whose neighbours are not
  all relaxed yet.
\<close>

definition Cells :: "cell set" where
  "Cells = {c. inbounds (fst c) (snd c)}"

definition potential :: "astate \<Rightarrow> nat" where
  "potential st = nat (\<Sum>c \<in> Cells. get_or_1e9 (gscore st) c)"

fun is_chain :: "(cell \<rightharpoonup> cell) \<Rightarrow> cell \<Rightarrow> cell list \<Rightarrow> bool" where
  "is_chain cm n [] \<longleftrightarrow> cm n = None"
| "is_chain cm n (c # cs) \<longleftrightarrow> cm n = Some c \<and> is_chain cm c cs"

definition ainv :: "Grid \<Rightarrow> cell \<Rightarrow> cell \<Rightarrow> cell set \<Rightarrow> astate \<Rightarrow> bool" where
  "ainv grid start goal X st \<longleftrightarrow>
     gscore st start = Some 0 \<and> came st start = None
     \<and> (\<forall>n c. came st n = Some c \<longrightarrow>
           (\<exists>gn gc. gscore st n = Some gn \<and> gscore st c = Some gc \<and> gc + 1 \<le> gn)
           \<and> adjacent c n \<and> cell_free grid n)
     \<and> (\<forall>n gn. gscore st n = Some gn \<longrightarrow>
           0 \<le> gn \<and> gn < int (card (dom (gscore st))) \<and> (n \<noteq> start \<longrightarrow> came st n \<noteq> None)
           \<and> fscore st n = Some (gn + manhattan n goal))
     \<and> dom (gscore st) \<subseteq> Cells
     \<and> set (openset st) \<subseteq> dom (gscore st)
     \<and> (\<forall>n gn n'. gscore st n = Some gn \<and> n \<notin> set (openset st) \<and> n \<notin> X
             \<and> adjacent n n' \<and> cell_free grid n'
           \<longrightarrow> (\<exists>g'. gscore st n' = Some g' \<and> g' \<le> gn + 1))
     \<and> (goal \<in> dom (gscore st) \<longrightarrow> goal \<in> set (openset st))"

definition step_post :: "Grid \<Rightarrow> cell \<Rightarrow> cell \<Rightarrow> cell \<Rightarrow> int \<Rightarrow> astate \<Rightarrow> astate \<Rightarrow> bool" where
  "step_post grid start goal cur gc st st' \<longleftrightarrow>
     ainv grid start goal {cur} st'
     \<and> gscore st' cur = Some gc
     \<and> cur \<notin> set (openset st')
     \<and> (\<forall>n v. gscore st n = Some v \<longrightarrow> (\<exists>v'. gscore st' n = Some v' \<and> v' \<le> v))
     \<and> (st' = st \<or> potential st' < potential st)"

section \<open>Object store: the search on references (team\_rocket\_ai\_agent.py)\<close>

text \<open>
  An Agent object: the values of its fields, where \<open>team\<close> holds the addresses of the
  Pokemon objects and \<open>elixirs\<close> the address of the dictionary. Neither decide\_action nor
  any function it calls assigns a field of an Agent or changes a team list, so the list is
  part of the object.
\<close>

record AgentObj =
  oname :: string
  oteam :: "nat list"
  ocoins :: int
  ofuel :: int
  oelixirs :: nat

text \<open>
  The store: the Agent, Pokemon, dictionary and BattleState objects, each kind by address.
  A new object takes the next address.
\<close>

record store =
  agt :: "AgentObj list"
  pok :: "Pokemon list"
  dic :: "(string \<times> int) list list"
  bst :: "BattleState list"

text \<open>The agent that a reference denotes in a store, as a value.\<close>

definition agent_at :: "store \<Rightarrow> nat \<Rightarrow> Agent" where
  "agent_at s r =
     (let ob = agt s ! r
      in \<lparr>Agent.name = oname ob, team = map (\<lambda>p. pok s ! p) (oteam ob),
          coins = ocoins ob, fuel = ofuel ob, elixirs = dic s ! oelixirs ob\<rparr>)"

text \<open>
  \<^verbatim>\<open>
  def cloneagent(a):
      return Agent(name=a.name,
          team=[Pokemon(p.name, p.ptype, p.maxhp, p.hp, p.atk, p.dfn, p.alive) for p in a.team],
          coins=a.coins, fuel=a.fuel, elixirs=dict(a.elixirs),
          position=a.position, targetpos=a.targetpos)
  \<close>
  Every Pokemon of the clone, its dictionary and the clone itself are new objects.
\<close>

definition cloneagent_store :: "store \<Rightarrow> nat \<Rightarrow> store \<times> nat" where
  "cloneagent_store s a =
     (let ob = agt s ! a;
          newpokes = map (\<lambda>p. \<lparr>Pokemon.name = Pokemon.name (pok s ! p), ptype = ptype (pok s ! p),
                                 maxhp = maxhp (pok s ! p), hp = hp (pok s ! p), atk = atk (pok s ! p),
                                 dfn = dfn (pok s ! p), alive = alive (pok s ! p)\<rparr>) (oteam ob);
          np = length (pok s)
      in (s\<lparr>pok := pok s @ newpokes,
            dic := dic s @ [dic s ! oelixirs ob],
            agt := agt s @ [\<lparr>oname = oname ob, oteam = [np ..< np + length newpokes],
                             ocoins = ocoins ob, ofuel = ofuel ob, oelixirs = length (dic s)\<rparr>]\<rparr>,
          length (agt s)))"

text \<open>\<open>BattleState(s.fieldtype, s.ashactive, s.rocketactive)\<close>\<close>

definition clonestate_store :: "store \<Rightarrow> nat \<Rightarrow> store \<times> nat" where
  "clonestate_store s b =
     (s\<lparr>bst := bst s @ [\<lparr>fieldtype = fieldtype (bst s ! b), ashactive = ashactive (bst s ! b),
                          rocketactive = rocketactive (bst s ! b)\<rparr>]\<rparr>,
      length (bst s))"

text \<open>
  The transition function on the store: the same steps as \<open>stepbattle_simulation\<close>, where
  \<open>heal\<close> and \<open>takedamage\<close> update the Pokemon object at its address, \<open>elixirs[arg] -= 1\<close>
  the dictionary object, and the last line the BattleState object. The store is returned in
  every case; an exception leaves the writes made before it.
\<close>

definition apply_act_store :: "store \<Rightarrow> nat \<Rightarrow> BattleAction \<Rightarrow> int \<Rightarrow> store \<times> (py_error + int)" where
  "apply_act_store s agent a activeidx =
     (let ob = agt s ! agent
      in case (kind a, arg a) of
           (SWAP, IntArg i) \<Rightarrow>
             if 0 \<le> i \<and> i < int (length (oteam ob)) \<and> alive (pok s ! (oteam ob ! nat i))
             then (s, Inr i) else (s, Inr activeidx)
         | (HEAL, StrArg k) \<Rightarrow>
             if dict_get0 (dic s ! oelixirs ob) k > 0 then
               (case map_of ELIXIRS k of
                  None \<Rightarrow> (s, Inl KeyError)
                | Some (healamt, price) \<Rightarrow>
                    (case pyidx (oteam ob) activeidx of
                       None \<Rightarrow> (s, Inl IndexError)
                     | Some j \<Rightarrow>
                         (s\<lparr>pok := (pok s)[oteam ob ! j := heal (pok s ! (oteam ob ! j)) healamt],
                            dic := (dic s)[oelixirs ob :=
                                     dict_set (dic s ! oelixirs ob) k
                                       (dict_get0 (dic s ! oelixirs ob) k - 1)]\<rparr>,
                          Inr activeidx)))
             else (s, Inr activeidx)
         | _ \<Rightarrow> (s, Inr activeidx))"

definition attack_store :: "store \<Rightarrow> BattleAction \<Rightarrow> nat \<Rightarrow> int \<Rightarrow> nat \<Rightarrow> int \<Rightarrow> bool \<Rightarrow> string \<Rightarrow> rng
                            \<Rightarrow> store \<times> (py_error + rng)" where
  "attack_store s atkact atker aidx dfd didx dfddef ftype g =
     (if kind atkact = ATTACK then
        (case pyidx (oteam (agt s ! atker)) aidx of
           None \<Rightarrow> (s, Inl IndexError)
         | Some i \<Rightarrow>
             if alive (pok s ! (oteam (agt s ! atker) ! i)) then
               (case pyidx (oteam (agt s ! dfd)) didx of
                  None \<Rightarrow> (s, Inl IndexError)
                | Some j \<Rightarrow>
                    if alive (pok s ! (oteam (agt s ! dfd) ! j)) then
                      (case computedamage (pok s ! (oteam (agt s ! atker) ! i))
                              (pok s ! (oteam (agt s ! dfd) ! j)) ftype g of
                         (dmg, g') \<Rightarrow>
                           (s\<lparr>pok := (pok s)[oteam (agt s ! dfd) ! j :=
                                        takedamage (pok s ! (oteam (agt s ! dfd) ! j))
                                          (defended dfddef dmg)]\<rparr>,
                            Inr g'))
                    else (s, Inr g))
             else (s, Inr g))
      else (s, Inr g))"

definition stepbattle_simulation_store ::
  "store \<Rightarrow> nat \<Rightarrow> nat \<Rightarrow> nat \<Rightarrow> BattleAction \<Rightarrow> BattleAction \<Rightarrow> rng \<Rightarrow> store \<times> (py_error + rng)" where
  "stepbattle_simulation_store s ash rocket bs ashact rocketact g =
     (case apply_act_store s ash ashact (ashactive (bst s ! bs)) of
        (s1, Inl e) \<Rightarrow> (s1, Inl e)
      | (s1, Inr ashidx) \<Rightarrow>
     (case apply_act_store s1 rocket rocketact (rocketactive (bst s1 ! bs)) of
        (s2, Inl e) \<Rightarrow> (s2, Inl e)
      | (s2, Inr rocidx) \<Rightarrow>
     (let ashdef = (kind ashact = DEFEND); rocdef = (kind rocketact = DEFEND)
      in case attack_store s2 ashact ash ashidx rocket rocidx rocdef (fieldtype (bst s2 ! bs)) g of
        (s3, Inl e) \<Rightarrow> (s3, Inl e)
      | (s3, Inr g1) \<Rightarrow>
     (case attack_store s3 rocketact rocket rocidx ash ashidx ashdef (fieldtype (bst s3 ! bs)) g1 of
        (s4, Inl e) \<Rightarrow> (s4, Inl e)
      | (s4, Inr g2) \<Rightarrow>
     (case replace_fainted (agent_at s4 ash) ashidx of
        Inl e \<Rightarrow> (s4, Inl e)
      | Inr ashidx' \<Rightarrow>
     (case replace_fainted (agent_at s4 rocket) rocidx of
        Inl e \<Rightarrow> (s4, Inl e)
      | Inr rocidx' \<Rightarrow>
          (s4\<lparr>bst := (bst s4)[bs := (bst s4 ! bs)\<lparr>ashactive := ashidx', rocketactive := rocidx'\<rparr>]\<rparr>,
           Inr g2)))))))"

text \<open>
  The body of the loop of \<open>recurse\<close> up to the recursive call: the three clones, then the
  transition on the clones.
\<close>

definition step_child_store :: "nat \<Rightarrow> nat \<Rightarrow> nat \<Rightarrow> bool \<Rightarrow> BattleAction \<Rightarrow> store \<times> rng
                                \<Rightarrow> (py_error \<times> store) + (nat \<times> nat \<times> nat \<times> store \<times> rng)" where
  "step_child_store a b s maximizing act sg =
     (case cloneagent_store (fst sg) a of (s1, aclone) \<Rightarrow>
      case cloneagent_store s1 b of (s2, bclone) \<Rightarrow>
      case clonestate_store s2 s of (s3, sclone) \<Rightarrow>
        (let myact = act;
             oppact = \<lparr>kind = ATTACK, arg = NoArg\<rparr>;
             ashact = (if maximizing then myact else oppact);
             rocketact = (if maximizing then oppact else myact)
         in case stepbattle_simulation_store s3 aclone bclone sclone ashact rocketact (snd sg) of
              (s4, Inl e) \<Rightarrow> Inl (e, s4)
            | (s4, Inr g') \<Rightarrow> Inr (aclone, bclone, sclone, s4, g')))"

function recurse_store :: "shuffle \<Rightarrow> bool \<Rightarrow> nat \<Rightarrow> nat \<Rightarrow> nat \<Rightarrow> nat \<Rightarrow> bool \<Rightarrow> int \<Rightarrow> int
                \<Rightarrow> nat list \<Rightarrow> store \<times> rng
                \<Rightarrow> (py_error \<times> store) + (int \<times> BattleAction option \<times> store \<times> rng)" where
  "recurse_store shuf meisash ply a b s maximizing alpha beta path sg =
     (if is_terminal ply (agent_at (fst sg) a) (agent_at (fst sg) b) then
        Inr (leaf_value meisash (agent_at (fst sg) a) (agent_at (fst sg) b) (bst (fst sg) ! s), None, sg)
      else
        (let bestval = (if maximizing then - (10 ^ 9) else 10 ^ 9);
             bestact = None
         in case node_actions (agent_at (fst sg) a) (agent_at (fst sg) b) (bst (fst sg) ! s) maximizing of
              Inl e \<Rightarrow> Inl (e, fst sg)
            | Inr actions \<Rightarrow>
                search_loop maximizing
                  (\<lambda>act k alpha beta sg.
                     case step_child_store a b s maximizing act sg of
                       Inl e \<Rightarrow> Inl e
                     | Inr (aclone, bclone, sclone, sg') \<Rightarrow>
                         (case recurse_store shuf meisash (ply - 1) aclone bclone sclone (\<not> maximizing)
                                 alpha beta (k # path) sg' of
                            Inl e \<Rightarrow> Inl e
                          | Inr (val, _, sg'') \<Rightarrow> Inr (val, sg'')))
                  (shuf path actions) 0 bestval bestact alpha beta sg))"
  by pat_completeness auto
termination
  by (relation "measure (\<lambda>(shuf, meisash, ply, rest). ply)") (auto simp: is_terminal_def)

definition decide_action_store :: "shuffle \<Rightarrow> nat \<Rightarrow> nat \<Rightarrow> nat \<Rightarrow> bool \<Rightarrow> nat \<Rightarrow> store \<times> rng
                          \<Rightarrow> store \<times> (py_error + BattleAction \<times> rng)" where
  "decide_action_store shuf me opp bs meisash depth sg =
     (case recurse_store shuf meisash depth (if meisash then me else opp) (if meisash then opp else me)
             bs meisash (- (10 ^ 9)) (10 ^ 9) [] sg of
        Inl (e, s') \<Rightarrow> (s', Inl e)
      | Inr (v, action, s', g') \<Rightarrow>
          (s', Inr (case action of None \<Rightarrow> \<lparr>kind = ATTACK, arg = NoArg\<rparr> | Some a \<Rightarrow> a, g')))"

text \<open>
  \<open>keeps xs ys\<close>: every object of \<open>xs\<close> is in \<open>ys\<close> at the same address, unchanged.
\<close>

definition keeps :: "'a list \<Rightarrow> 'a list \<Rightarrow> bool" where
  "keeps xs ys \<longleftrightarrow> (\<exists>zs. ys = xs @ zs)"

definition extends :: "store \<Rightarrow> store \<Rightarrow> bool" where
  "extends s s' \<longleftrightarrow>
     keeps (agt s) (agt s') \<and> keeps (pok s) (pok s') \<and> keeps (dic s) (dic s') \<and> keeps (bst s) (bst s')"

text \<open>A reference to an agent whose objects all exist in the store.\<close>

definition agent_ok :: "store \<Rightarrow> nat \<Rightarrow> bool" where
  "agent_ok s r \<longleftrightarrow>
     r < length (agt s) \<and> list_all (\<lambda>p. p < length (pok s)) (oteam (agt s ! r))
     \<and> oelixirs (agt s ! r) < length (dic s)"

text \<open>
  The agent \<open>r\<close> of \<open>s\<close> refers only to Pokemon and dictionary objects that did not exist in
  \<open>base\<close>: it is a clone made after \<open>base\<close>.
\<close>

definition above :: "store \<Rightarrow> store \<Rightarrow> nat \<Rightarrow> bool" where
  "above base s r \<longleftrightarrow>
     (\<forall>p \<in> set (oteam (agt s ! r)). length (pok base) \<le> p) \<and> length (dic base) \<le> oelixirs (agt s ! r)"

definition child_out :: "(py_error \<times> store) + (int \<times> store \<times> rng) \<Rightarrow> store" where
  "child_out r = (case r of Inl (e, s) \<Rightarrow> s | Inr (v, s, g) \<Rightarrow> s)"

definition node_out :: "(py_error \<times> store) + (int \<times> BattleAction option \<times> store \<times> rng) \<Rightarrow> store" where
  "node_out r = (case r of Inl (e, s) \<Rightarrow> s | Inr (v, a, s, g) \<Rightarrow> s)"

definition step_out :: "(py_error \<times> store) + (nat \<times> nat \<times> nat \<times> store \<times> rng) \<Rightarrow> store" where
  "step_out r = (case r of Inl (e, s) \<Rightarrow> s | Inr (a, b, c, s, g) \<Rightarrow> s)"

declare recurse_store.simps [simp del]

text \<open>A store with the two agents of \<open>bsW\<close>, one Pokemon each, and one battle state.\<close>

definition store0 :: store where
  "store0 = \<lparr>agt = [\<lparr>oname = ''Ash'', oteam = [0], ocoins = 100, ofuel = 45, oelixirs = 0\<rparr>,
                    \<lparr>oname = ''Team Rocket'', oteam = [1], ocoins = 100, ofuel = 45, oelixirs = 1\<rparr>],
             pok = [weakmon ''Fire'' 100 30 10, weakmon ''Fire'' 100 100 10],
             dic = [[(''Large'', 1)], []],
             bst = [bsW]\<rparr>"

section \<open>Health mutators: invariant and zero effect\<close>

lemma takedamage_maxhp [simp]: "maxhp (takedamage p d) = maxhp p"
  by (simp add: takedamage_def Let_def)

lemma heal_maxhp [simp]: "maxhp (heal p a) = maxhp p"
  by (simp add: heal_def)

lemma takedamage_hp_ok: "hp_ok p \<Longrightarrow> 0 \<le> d \<Longrightarrow> hp_ok (takedamage p d)"
  by (auto simp: hp_ok_def takedamage_def Let_def)

lemma heal_hp_ok: "hp_ok p \<Longrightarrow> 0 \<le> a \<Longrightarrow> hp_ok (heal p a)"
  by (auto simp: hp_ok_def heal_def)

lemma docall_hp_ok: "hp_ok p \<Longrightarrow> 0 \<le> amount c \<Longrightarrow> hp_ok (docall p c)"
  by (cases c) (simp_all add: takedamage_hp_ok heal_hp_ok)

lemma docalls_hp_ok: "hp_ok p \<Longrightarrow> \<forall>c \<in> set cs. 0 \<le> amount c \<Longrightarrow> hp_ok (docalls p cs)"
  by (induction cs arbitrary: p) (simp_all add: docall_hp_ok)

lemma docall_dead: "\<not> alive p \<Longrightarrow> docall p c = p"
  by (cases c) (simp_all add: takedamage_def heal_def)

lemma docalls_dead: "\<not> alive p \<Longrightarrow> docalls p cs = p"
  by (induction cs) (simp_all add: docall_dead)

lemma docalls_append: "docalls p (cs @ ds) = docalls (docalls p cs) ds"
  by (induction cs arbitrary: p) simp_all

text \<open>
  C3, as stated, fails: a negative amount is not clamped. From a full-health Pokemon
  (hp = maxhp = 100), \<open>takedamage(-50)\<close> gives hp 150, above maxhp; and \<open>heal(-100)\<close>
  gives hp 0 while alive stays true.
\<close>

theorem C3_counterexample:
  "hp_ok pikachu \<and> hp (docalls pikachu [TakeDamage (-50)]) = 150
   \<and> maxhp (docalls pikachu [TakeDamage (-50)]) = 100
   \<and> hp (docalls pikachu [Heal (-100)]) = 0 \<and> alive (docalls pikachu [Heal (-100)])"
  by (simp add: pikachu_def hp_ok_def takedamage_def heal_def)

text \<open>
  C3, amended: for every Pokemon that starts within the invariant (\<open>0 \<le> hp \<le> maxhp\<close>, alive
  iff \<open>hp \<noteq> 0\<close>) and every sequence of takedamage and heal calls with non-negative amounts,
  after the sequence (hence after every call, each prefix being such a sequence) hp is within
  \<open>[0, maxhp]\<close>, maxhp is unchanged and alive is false iff \<open>hp = 0\<close>. Once alive is false, no
  further calls, with any integer amounts, change the Pokemon: it never becomes alive again.
\<close>

theorem C3_hp_invariant:
  assumes "hp_ok p" and "\<forall>c \<in> set cs. 0 \<le> amount c"
  shows "0 \<le> hp (docalls p cs) \<and> hp (docalls p cs) \<le> maxhp p
         \<and> maxhp (docalls p cs) = maxhp p
         \<and> (\<not> alive (docalls p cs) \<longleftrightarrow> hp (docalls p cs) = 0)
         \<and> (\<not> alive (docalls p cs) \<longrightarrow> (\<forall>ds. docalls p (cs @ ds) = docalls p cs))"
proof -
  have ok: "hp_ok (docalls p cs)"
    using assms by (rule docalls_hp_ok)
  have m: "maxhp (docalls p cs) = maxhp p"
  proof (induction cs arbitrary: p)
    case Nil
    show ?case by simp
  next
    case (Cons c cs)
    have "maxhp (docall p c) = maxhp p" by (cases c) simp_all
    with Cons show ?case by simp
  qed
  have perm: "\<not> alive (docalls p cs) \<longrightarrow> (\<forall>ds. docalls p (cs @ ds) = docalls p cs)"
    by (simp add: docalls_append docalls_dead)
  from ok m perm show ?thesis
    by (auto simp: hp_ok_def)
qed

theorem C3_hp_invariant_witness:
  "hp (docalls pikachu [TakeDamage 30, Heal 50, TakeDamage 120, Heal 10]) = 0
   \<and> \<not> alive (docalls pikachu [TakeDamage 30, Heal 50, TakeDamage 120, Heal 10])
   \<and> hp (docalls pikachu [TakeDamage 30, Heal 50]) = 100"
proof -
  have ok: "hp_ok pikachu"
    by (simp add: pikachu_def hp_ok_def)
  have nn: "\<forall>c \<in> set [TakeDamage 30, Heal 50, TakeDamage 120, Heal 10]. 0 \<le> amount c"
    by simp
  have h: "hp (docalls pikachu [TakeDamage 30, Heal 50]) = 100"
    by (simp add: pikachu_def takedamage_def heal_def)
  have d: "hp (docalls pikachu [TakeDamage 30, Heal 50, TakeDamage 120, Heal 10]) = 0"
    by (simp add: pikachu_def takedamage_def heal_def)
  from C3_hp_invariant [OF ok nn] d h show ?thesis
    by blast
qed

text \<open>
  C4, as stated, fails for a negative amount: \<open>takedamage(-5)\<close> on a Pokemon with hp 100
  gives hp 105, and \<open>heal(-5)\<close> gives hp 95.
\<close>

theorem C4_counterexample:
  "hp (takedamage pikachu (-5)) = 105 \<and> hp (heal pikachu (-5)) = 95"
  by (simp add: pikachu_def takedamage_def heal_def)

text \<open>
  C4, amended: for every Pokemon within the invariant, \<open>takedamage(0)\<close> and \<open>heal(0)\<close>
  leave the Pokemon unchanged; and for a Pokemon that is not alive, both calls leave it
  unchanged whatever the amount.
\<close>

theorem C4_zero_amount_no_effect:
  "(hp_ok p \<longrightarrow> takedamage p 0 = p \<and> heal p 0 = p)
   \<and> (\<not> alive p \<longrightarrow> takedamage p amt = p \<and> heal p amt = p)"
  by (auto simp: hp_ok_def takedamage_def heal_def Let_def)

theorem C4_zero_amount_no_effect_witness:
  "takedamage pikachu 0 = pikachu \<and> heal pikachu 0 = pikachu
   \<and> takedamage (pikachu\<lparr>hp := 0, alive := False\<rparr>) (-7) = pikachu\<lparr>hp := 0, alive := False\<rparr>"
proof -
  have ok: "hp_ok pikachu"
    by (simp add: pikachu_def hp_ok_def)
  have dead: "\<not> alive (pikachu\<lparr>hp := 0, alive := False\<rparr>)"
    by simp
  from C4_zero_amount_no_effect [of pikachu] C4_zero_amount_no_effect [of "pikachu\<lparr>hp := 0, alive := False\<rparr>" "-7"]
    ok dead show ?thesis
    by blast
qed

section \<open>Fuzzy swap confidence\<close>

lemma membership_low_range: "0 \<le> membership_low v a b \<and> membership_low v a b \<le> 1"
  by (auto simp: membership_low_def divide_le_eq_1)

lemma should_swap_adv:
  "in_TYPEADV (e, a) \<Longrightarrow> 1/2 \<le> should_swap a e True h"
  by (simp add: should_swap_def Let_def max_def)

lemma should_swap_noadv:
  "\<not> in_TYPEADV (e, a) \<Longrightarrow> should_swap a e True h = 0"
  using membership_low_range[of h 10 30] membership_low_range[of h 20 50]
  by (simp add: should_swap_def Let_def max_def min_def)

text \<open>
  C6, as stated, fails: with a bench advantage, a Fire Pokemon facing an Electric opponent
  (the active Pokemon is not at a type disadvantage) gets confidence 0, below 0.5. Every rule
  of \<open>should_swap\<close>, the flat 0.5 included, is scaled by \<open>has_disadvantage\<close>.
\<close>

theorem C6_counterexample:
  "should_swap ''Fire'' ''Electric'' True 50 = 0"
  by code_simp

text \<open>
  C6, amended: for every call to \<open>should_swap\<close> with \<open>bench_has_advantage\<close> true, the
  confidence is at least 0.5 when the enemy's type has an advantage over the active
  Pokemon's type (\<open>(enemy_type, active_type)\<close> is in TYPEADV), whatever the HP percentage;
  otherwise it is 0.
\<close>

theorem C6_swap_confidence:
  "(in_TYPEADV (enemy_type, active_type) \<longrightarrow> 1/2 \<le> should_swap active_type enemy_type True h)
   \<and> (\<not> in_TYPEADV (enemy_type, active_type) \<longrightarrow> should_swap active_type enemy_type True h = 0)"
  using should_swap_adv [of enemy_type active_type h] should_swap_noadv [of enemy_type active_type h]
  by blast

theorem C6_swap_confidence_witness:
  "1/2 \<le> should_swap ''Electric'' ''Fire'' True 50 \<and> should_swap ''Electric'' ''Electric'' True 5 = 0"
proof -
  have a: "in_TYPEADV (''Fire'', ''Electric'')" by (simp add: in_TYPEADV_def TYPEADV_def)
  have b: "\<not> in_TYPEADV (''Electric'', ''Electric'')" by (simp add: in_TYPEADV_def TYPEADV_def)
  from C6_swap_confidence [of "''Fire''" "''Electric''" 50]
       C6_swap_confidence [of "''Electric''" "''Electric''" 5] a b
  show ?thesis by blast
qed

section \<open>Legal actions\<close>








section \<open>Battle transition\<close>












lemma stepbattle_parts:
  assumes "stepbattle_simulation ash rocket bs ashact rocketact g = Inr (ash', rocket', bs', g')"
  shows "\<exists>ash1 i1 r1 j1 g1.
           apply_act ash ashact (ashactive bs) = Inr (ash1, i1)
         \<and> apply_act rocket rocketact (rocketactive bs) = Inr (r1, j1)
         \<and> attack ashact ash1 i1 r1 j1 (kind rocketact = DEFEND) (fieldtype bs) g = Inr (rocket', g1)
         \<and> attack rocketact rocket' j1 ash1 i1 (kind ashact = DEFEND) (fieldtype bs) g1 = Inr (ash', g')
         \<and> replace_fainted ash' i1 = Inr (ashactive bs')
         \<and> replace_fainted rocket' j1 = Inr (rocketactive bs')
         \<and> fieldtype bs' = fieldtype bs"
  using assms unfolding stepbattle_simulation_def Let_def
  by (auto split: sum.splits prod.splits)









section \<open>Alpha-beta pruning against pure minimax\<close>

lemma if_max: "(if (a::int) < b then b else a) = max a b" by simp
lemma if_min: "(if (b::int) < a then b else a) = min a b" by simp

lemma max_step_inv:
  assumes "soft alpha be Vi Wi" "M \<le> m" "m \<le> al0 \<or> M = m" "alpha = max al0 m"
    and "max alpha (max m Wi) < be"
  shows "max M Vi \<le> max m Wi" "max m Wi \<le> al0 \<or> max M Vi = max m Wi"
    "max alpha (max m Wi) = max al0 (max m Wi)"
proof -
  from assms(5) have wb: "Wi < be" by simp
  with assms(1) consider (lo) "Wi \<le> alpha" "Vi \<le> Wi" | (mid) "alpha < Wi" "Vi = Wi"
    unfolding soft_def by linarith
  then show "max M Vi \<le> max m Wi"
    using assms(2) by cases linarith+
  from \<open>Wi < be\<close> assms(1) consider (lo) "Wi \<le> alpha" "Vi \<le> Wi" | (mid) "alpha < Wi" "Vi = Wi"
    unfolding soft_def by linarith
  then show "max m Wi \<le> al0 \<or> max M Vi = max m Wi"
    using assms(2,3,4) by cases linarith+
  show "max alpha (max m Wi) = max al0 (max m Wi)"
    using assms(4) by linarith
qed

lemma max_step_brk:
  assumes "soft alpha be Vi Wi" "alpha = max al0 m" "alpha < be"
    and "be \<le> max alpha (max m Wi)" "max M Vi \<le> V"
  shows "soft al0 be V (max m Wi)"
proof -
  from assms(2,3,4) have w: "max m Wi = Wi" "be \<le> Wi" by linarith+
  with assms(1) have "Wi \<le> Vi" by (simp add: soft_def)
  with assms(5) have "Wi \<le> V" by linarith
  with w assms(2,3) show ?thesis unfolding soft_def by linarith
qed

lemma min_step_inv:
  assumes "soft al beta Vi Wi" "m \<le> M" "be0 \<le> m \<or> M = m" "beta = min be0 m"
    and "al < min beta (min m Wi)"
  shows "min m Wi \<le> min M Vi" "be0 \<le> min m Wi \<or> min M Vi = min m Wi"
    "min beta (min m Wi) = min be0 (min m Wi)"
proof -
  from assms(5) have wb: "al < Wi" by simp
  with assms(1) consider (hi) "beta \<le> Wi" "Wi \<le> Vi" | (mid) "Wi < beta" "Vi = Wi"
    unfolding soft_def by linarith
  then show "min m Wi \<le> min M Vi"
    using assms(2) by cases linarith+
  from wb assms(1) consider (hi) "beta \<le> Wi" "Wi \<le> Vi" | (mid) "Wi < beta" "Vi = Wi"
    unfolding soft_def by linarith
  then show "be0 \<le> min m Wi \<or> min M Vi = min m Wi"
    using assms(2,3,4) by cases linarith+
  show "min beta (min m Wi) = min be0 (min m Wi)"
    using assms(4) by linarith
qed

lemma min_step_brk:
  assumes "soft al beta Vi Wi" "beta = min be0 m" "al < beta"
    and "min beta (min m Wi) \<le> al" "V \<le> min M Vi"
  shows "soft al be0 V (min m Wi)"
proof -
  from assms(2,3,4) have w: "min m Wi = Wi" "Wi \<le> al" by linarith+
  with assms(1) have "Vi \<le> Wi" by (simp add: soft_def)
  with assms(5) have "V \<le> Wi" by linarith
  with w assms(2,3) show ?thesis unfolding soft_def by linarith
qed


lemma const_stream_tail: "const_stream g \<Longrightarrow> (\<lambda>i. g (Suc i)) = g"
  by (auto simp: const_stream_def fun_eq_iff) metis

lemma attack_const:
  "const_stream g \<Longrightarrow> attack x A i D j dd f g = Inr (D', g') \<Longrightarrow> g' = g"
  by (auto simp: attack_def computedamage_def uniform_def const_stream_tail
           split: if_splits option.splits)

lemma stepbattle_const:
  assumes "const_stream g"
    and "stepbattle_simulation a b s x y g = Inr (a', b', s', g')"
  shows "g' = g"
proof -
  from stepbattle_parts [OF assms(2)] obtain ash1 i1 r1 j1 g1 where
    a1: "attack x ash1 i1 r1 j1 (kind y = DEFEND) (fieldtype s) g = Inr (b', g1)" and
    a2: "attack y b' j1 ash1 i1 (kind x = DEFEND) (fieldtype s) g1 = Inr (a', g')"
    by blast
  from attack_const [OF assms(1) a1] have "g1 = g" .
  with attack_const [OF assms(1)] a2 show ?thesis by blast
qed

lemma step_child_const:
  "const_stream g \<Longrightarrow> step_child a b s mx x g = Inr (a', b', s', g') \<Longrightarrow> g' = g"
  unfolding step_child_def Let_def by (rule stepbattle_const)

lemma minimax_loop_max_ge:
  "minimax_loop True ch acts k M aM g = Inr (V, aV, gV) \<Longrightarrow> M \<le> V"
proof (induction acts arbitrary: k M aM g)
  case Nil
  then show ?case by simp
next
  case (Cons a acts)
  from Cons.prems obtain Vi g' where c: "ch a k g = Inr (Vi, g')"
    by (auto split: sum.splits)
  with Cons.prems have
    "minimax_loop True ch acts (k + 1) (if M < Vi then Vi else M) (if M < Vi then Some a else aM) g' = Inr (V, aV, gV)"
    by (simp add: Let_def)
  from Cons.IH [OF this] show ?case by (simp split: if_splits)
qed

lemma minimax_loop_min_le:
  "minimax_loop False ch acts k M aM g = Inr (V, aV, gV) \<Longrightarrow> V \<le> M"
proof (induction acts arbitrary: k M aM g)
  case Nil
  then show ?case by simp
next
  case (Cons a acts)
  from Cons.prems obtain Vi g' where c: "ch a k g = Inr (Vi, g')"
    by (auto split: sum.splits)
  with Cons.prems have
    "minimax_loop False ch acts (k + 1) (if Vi < M then Vi else M) (if Vi < M then Some a else aM) g' = Inr (V, aV, gV)"
    by (simp add: Let_def)
  from Cons.IH [OF this] show ?case by (simp split: if_splits)
qed

lemma minimax_loop_rng:
  assumes "\<And>a k V gV. a \<in> set acts \<Longrightarrow> childF a k g = Inr (V, gV) \<Longrightarrow> gV = g"
    and "minimax_loop mx childF acts k M aM g = Inr (V, aV, gV)"
  shows "gV = g"
  using assms
proof (induction acts arbitrary: k M aM)
  case Nil
  then show ?case by simp
next
  case (Cons a acts)
  from Cons.prems(2) obtain Vi g' where cF: "childF a k g = Inr (Vi, g')"
    by (auto split: sum.splits)
  from Cons.prems(1) [OF _ cF] have g': "g' = g" by simp
  have ch': "\<And>a' k V gV. a' \<in> set acts \<Longrightarrow> childF a' k g = Inr (V, gV) \<Longrightarrow> gV = g"
    by (rule Cons.prems(1)) auto
  from Cons.prems(2) cF g' obtain M' aM' where
    "minimax_loop mx childF acts (k + 1) M' aM' g = Inr (V, aV, gV)"
    by (simp add: Let_def)
  from Cons.IH [OF ch' this] show ?case .
qed

lemma search_loop_max:
  assumes ch: "\<And>a k al V. a \<in> set acts \<Longrightarrow> lo \<le> al \<Longrightarrow> al < be \<Longrightarrow> childF a k g = Inr (V, g)
                 \<Longrightarrow> \<exists>W. childP a k al be g = Inr (W, g) \<and> soft al be V W"
    and chg: "\<And>a k V gV. a \<in> set acts \<Longrightarrow> childF a k g = Inr (V, gV) \<Longrightarrow> gV = g"
    and full: "minimax_loop True childF acts k M aM g = Inr (V, aV, gV)"
    and inv: "M \<le> m" "m \<le> al0 \<or> M = m" "alpha = max al0 m" "alpha < be" "lo \<le> al0"
  shows "\<exists>W aW. search_loop True childP acts k m am alpha be g = Inr (W, aW, g) \<and> soft al0 be V W"
  using ch chg full inv
proof (induction acts arbitrary: k M aM m am alpha)
  case Nil
  then show ?case by (auto simp: soft_def)
next
  case (Cons a acts)
  from Cons.prems(3) obtain Vi g' where cF0: "childF a k g = Inr (Vi, g')"
    by (auto split: sum.splits)
  from Cons.prems(2) [OF _ cF0] have g': "g' = g" by simp
  with cF0 have cF: "childF a k g = Inr (Vi, g)" by simp
  have lo: "lo \<le> alpha" using Cons.prems(6,8) by simp
  from Cons.prems(1) [OF _ lo Cons.prems(7) cF] obtain Wi where
    cP: "childP a k alpha be g = Inr (Wi, g)" and s: "soft alpha be Vi Wi"
    by auto
  let ?aM' = "if M < Vi then Some a else aM" and ?am' = "if m < Wi then Some a else am"
  from Cons.prems(3) cF have rest:
    "minimax_loop True childF acts (k + 1) (max M Vi) ?aM' g = Inr (V, aV, gV)"
    by (simp add: Let_def if_max)
  show ?case
  proof (cases "be \<le> max alpha (max m Wi)")
    case True
    then have brk: "search_loop True childP (a # acts) k m am alpha be g = Inr (max m Wi, ?am', g)"
      using cP by (simp add: Let_def if_max)
    have "max M Vi \<le> V" using rest by (rule minimax_loop_max_ge)
    from max_step_brk [OF s Cons.prems(6,7) True this] brk
    show ?thesis by blast
  next
    case False
    then have cont: "search_loop True childP (a # acts) k m am alpha be g
                       = search_loop True childP acts (k + 1) (max m Wi) ?am' (max alpha (max m Wi)) be g"
      using cP by (simp add: Let_def if_max)
    from False have nb: "max alpha (max m Wi) < be" by (simp only: not_le)
    note i = max_step_inv [OF s Cons.prems(4,5,6) nb]
    have ch': "\<And>a' k al V. a' \<in> set acts \<Longrightarrow> lo \<le> al \<Longrightarrow> al < be \<Longrightarrow> childF a' k g = Inr (V, g)
                 \<Longrightarrow> \<exists>W. childP a' k al be g = Inr (W, g) \<and> soft al be V W"
      by (rule Cons.prems(1)) auto
    have chg': "\<And>a' k V gV. a' \<in> set acts \<Longrightarrow> childF a' k g = Inr (V, gV) \<Longrightarrow> gV = g"
      by (rule Cons.prems(2)) auto
    have "\<exists>W aW. search_loop True childP acts (k + 1) (max m Wi) ?am' (max alpha (max m Wi)) be g
                    = Inr (W, aW, g) \<and> soft al0 be V W"
      by (rule Cons.IH [OF ch' chg' rest i(1) i(2) i(3) nb Cons.prems(8)])
    then show ?thesis unfolding cont .
  qed
qed

lemma search_loop_min:
  assumes ch: "\<And>a k be V. a \<in> set acts \<Longrightarrow> be \<le> hi \<Longrightarrow> al < be \<Longrightarrow> childF a k g = Inr (V, g)
                 \<Longrightarrow> \<exists>W. childP a k al be g = Inr (W, g) \<and> soft al be V W"
    and chg: "\<And>a k V gV. a \<in> set acts \<Longrightarrow> childF a k g = Inr (V, gV) \<Longrightarrow> gV = g"
    and full: "minimax_loop False childF acts k M aM g = Inr (V, aV, gV)"
    and inv: "m \<le> M" "be0 \<le> m \<or> M = m" "beta = min be0 m" "al < beta" "be0 \<le> hi"
  shows "\<exists>W aW. search_loop False childP acts k m am al beta g = Inr (W, aW, g) \<and> soft al be0 V W"
  using ch chg full inv
proof (induction acts arbitrary: k M aM m am beta)
  case Nil
  then show ?case by (auto simp: soft_def)
next
  case (Cons a acts)
  from Cons.prems(3) obtain Vi g' where cF0: "childF a k g = Inr (Vi, g')"
    by (auto split: sum.splits)
  from Cons.prems(2) [OF _ cF0] have g': "g' = g" by simp
  with cF0 have cF: "childF a k g = Inr (Vi, g)" by simp
  have hi: "beta \<le> hi" using Cons.prems(6,8) by simp
  from Cons.prems(1) [OF _ hi Cons.prems(7) cF] obtain Wi where
    cP: "childP a k al beta g = Inr (Wi, g)" and s: "soft al beta Vi Wi"
    by auto
  let ?aM' = "if Vi < M then Some a else aM" and ?am' = "if Wi < m then Some a else am"
  from Cons.prems(3) cF have rest:
    "minimax_loop False childF acts (k + 1) (min M Vi) ?aM' g = Inr (V, aV, gV)"
    by (simp add: Let_def if_min)
  show ?case
  proof (cases "min beta (min m Wi) \<le> al")
    case True
    then have brk: "search_loop False childP (a # acts) k m am al beta g = Inr (min m Wi, ?am', g)"
      using cP by (simp add: Let_def if_min)
    have "V \<le> min M Vi" using rest by (rule minimax_loop_min_le)
    from min_step_brk [OF s Cons.prems(6,7) True this] brk
    show ?thesis by blast
  next
    case False
    then have cont: "search_loop False childP (a # acts) k m am al beta g
                       = search_loop False childP acts (k + 1) (min m Wi) ?am' al (min beta (min m Wi)) g"
      using cP by (simp add: Let_def if_min)
    from False have nb: "al < min beta (min m Wi)" by (simp only: not_le)
    note i = min_step_inv [OF s Cons.prems(4,5,6) nb]
    have ch': "\<And>a' k be V. a' \<in> set acts \<Longrightarrow> be \<le> hi \<Longrightarrow> al < be \<Longrightarrow> childF a' k g = Inr (V, g)
                 \<Longrightarrow> \<exists>W. childP a' k al be g = Inr (W, g) \<and> soft al be V W"
      by (rule Cons.prems(1)) auto
    have chg': "\<And>a' k V gV. a' \<in> set acts \<Longrightarrow> childF a' k g = Inr (V, gV) \<Longrightarrow> gV = g"
      by (rule Cons.prems(2)) auto
    have "\<exists>W aW. search_loop False childP acts (k + 1) (min m Wi) ?am' al (min beta (min m Wi)) g
                    = Inr (W, aW, g) \<and> soft al be0 V W"
      by (rule Cons.IH [OF ch' chg' rest i(1) i(2) i(3) nb Cons.prems(8)])
    then show ?thesis unfolding cont .
  qed
qed

lemma soft_refl: "soft al be v v"
  by (simp add: soft_def)

lemma recurse_terminal:
  "is_terminal ply a b \<Longrightarrow>
   recurse shuf meisash ply a b s mx al be path g = Inr (leaf_value meisash a b s, None, g)"
  by (subst recurse.simps) simp

lemma minimax_terminal:
  "is_terminal ply a b \<Longrightarrow>
   minimax shuf meisash ply a b s mx path g = Inr (leaf_value meisash a b s, None, g)"
  by (subst minimax.simps) simp

lemma recurse_inner:
  "\<not> is_terminal ply a b \<Longrightarrow>
   recurse shuf meisash ply a b s mx al be path g =
     (case node_actions a b s mx of
        Inl e \<Rightarrow> Inl e
      | Inr actions \<Rightarrow>
          search_loop mx
            (\<lambda>act k alpha beta g.
               case step_child a b s mx act g of
                 Inl e \<Rightarrow> Inl e
               | Inr (aclone, bclone, sclone, g') \<Rightarrow>
                   (case recurse shuf meisash (ply - 1) aclone bclone sclone (\<not> mx) alpha beta (k # path) g' of
                      Inl e \<Rightarrow> Inl e
                    | Inr (val, _, g'') \<Rightarrow> Inr (val, g'')))
            (shuf path actions) 0 (if mx then - (10 ^ 9) else 10 ^ 9) None al be g)"
  by (subst recurse.simps) (simp add: Let_def)

lemma minimax_inner:
  "\<not> is_terminal ply a b \<Longrightarrow>
   minimax shuf meisash ply a b s mx path g =
     (case node_actions a b s mx of
        Inl e \<Rightarrow> Inl e
      | Inr actions \<Rightarrow>
          minimax_loop mx
            (\<lambda>act k g.
               case step_child a b s mx act g of
                 Inl e \<Rightarrow> Inl e
               | Inr (aclone, bclone, sclone, g') \<Rightarrow>
                   (case minimax shuf meisash (ply - 1) aclone bclone sclone (\<not> mx) (k # path) g' of
                      Inl e \<Rightarrow> Inl e
                    | Inr (val, _, g'') \<Rightarrow> Inr (val, g'')))
            (shuf path actions) 0 (if mx then - (10 ^ 9) else 10 ^ 9) None g)"
  by (subst minimax.simps) (simp add: Let_def)

lemma search_agrees_with_minimax:
  assumes cs: "const_stream g"
  shows "- (10 ^ 9) \<le> al \<Longrightarrow> al < be \<Longrightarrow> be \<le> 10 ^ 9
         \<Longrightarrow> minimax shuf meisash ply a b s mx path g = Inr (V, aV, gV)
         \<Longrightarrow> gV = g \<and> (\<exists>W aW. recurse shuf meisash ply a b s mx al be path g = Inr (W, aW, g)
                                 \<and> soft al be V W)"
proof (induction ply arbitrary: a b s mx al be path V aV gV)
  case 0
  have t: "is_terminal 0 a b" by (simp add: is_terminal_def)
  from "0.prems"(4) minimax_terminal [OF t] recurse_terminal [OF t]
  show ?case by (simp add: soft_refl)
next
  case (Suc n)
  show ?case
  proof (cases "is_terminal (Suc n) a b")
    case True
    from Suc.prems(4) minimax_terminal [OF True] recurse_terminal [OF True]
    show ?thesis by (simp add: soft_refl)
  next
    case False
    let ?cF = "\<lambda>act k g.
               case step_child a b s mx act g of
                 Inl e \<Rightarrow> Inl e
               | Inr (aclone, bclone, sclone, g') \<Rightarrow>
                   (case minimax shuf meisash (Suc n - 1) aclone bclone sclone (\<not> mx) (k # path) g' of
                      Inl e \<Rightarrow> Inl e
                    | Inr (val, _, g'') \<Rightarrow> Inr (val, g''))"
    let ?cP = "\<lambda>act k alpha beta g.
               case step_child a b s mx act g of
                 Inl e \<Rightarrow> Inl e
               | Inr (aclone, bclone, sclone, g') \<Rightarrow>
                   (case recurse shuf meisash (Suc n - 1) aclone bclone sclone (\<not> mx) alpha beta (k # path) g' of
                      Inl e \<Rightarrow> Inl e
                    | Inr (val, _, g'') \<Rightarrow> Inr (val, g''))"
    from Suc.prems(4) minimax_inner [OF False] obtain actions where
      na: "node_actions a b s mx = Inr actions" and
      full: "minimax_loop mx ?cF (shuf path actions) 0 (if mx then - (10 ^ 9) else 10 ^ 9) None g
               = Inr (V, aV, gV)"
      by (auto split: sum.splits)
    have chg: "\<And>x k V' gV'. ?cF x k g = Inr (V', gV') \<Longrightarrow> gV' = g"
    proof -
      fix x k V' gV'
      assume c: "?cF x k g = Inr (V', gV')"
      then obtain a' b' s' g' where st: "step_child a b s mx x g = Inr (a', b', s', g')"
        by (auto split: sum.splits)
      from step_child_const [OF cs st] have g': "g' = g" .
      from c st g' obtain aV' where
        "minimax shuf meisash n a' b' s' (\<not> mx) (k # path) g = Inr (V', aV', gV')"
        by (auto split: sum.splits)
      from Suc.IH [OF Suc.prems(1,2,3) this] show "gV' = g" by simp
    qed
    have ch: "\<And>x k al' be' V'. - (10 ^ 9) \<le> al' \<Longrightarrow> al' < be' \<Longrightarrow> be' \<le> 10 ^ 9
                \<Longrightarrow> ?cF x k g = Inr (V', g)
                \<Longrightarrow> \<exists>W. ?cP x k al' be' g = Inr (W, g) \<and> soft al' be' V' W"
    proof -
      fix x k and al' be' V' :: int
      assume w: "- (10 ^ 9) \<le> al'" "al' < be'" "be' \<le> 10 ^ 9" and c: "?cF x k g = Inr (V', g)"
      from c obtain a' b' s' g' where st: "step_child a b s mx x g = Inr (a', b', s', g')"
        by (auto split: sum.splits)
      from step_child_const [OF cs st] have g': "g' = g" .
      from c st g' obtain aV' where
        "minimax shuf meisash n a' b' s' (\<not> mx) (k # path) g = Inr (V', aV', g)"
        by (auto split: sum.splits)
      from Suc.IH [OF w this] obtain W aW where
        "recurse shuf meisash n a' b' s' (\<not> mx) al' be' (k # path) g = Inr (W, aW, g)"
        "soft al' be' V' W"
        by blast
      with st g' show "\<exists>W. ?cP x k al' be' g = Inr (W, g) \<and> soft al' be' V' W"
        by simp
    qed
    have gV: "gV = g"
      using chg full by (rule minimax_loop_rng)
    have "\<exists>W aW. search_loop mx ?cP (shuf path actions) 0 (if mx then - (10 ^ 9) else 10 ^ 9) None al be g
                    = Inr (W, aW, g) \<and> soft al be V W"
    proof (cases mx)
      case True
      with full have f: "minimax_loop True ?cF (shuf path actions) 0 (- (10 ^ 9)) None g = Inr (V, aV, gV)"
        by simp
      have "\<exists>W aW. search_loop True ?cP (shuf path actions) 0 (- (10 ^ 9)) None al be g
                    = Inr (W, aW, g) \<and> soft al be V W"
      proof (rule search_loop_max [where lo = "- (10 ^ 9)" and childF = ?cF, OF _ _ f])
        show "- (10 ^ 9) \<le> al" by (rule Suc.prems(1))
        show "al < be" by (rule Suc.prems(2))
        show "al = max al (- (10 ^ 9))" using Suc.prems(1) by simp
        show "- (10 ^ 9) \<le> (- (10 ^ 9) :: int)" by simp
        show "- (10 ^ 9) \<le> al \<or> - (10 ^ 9) = (- (10 ^ 9) :: int)" by simp
      next
        fix x k and al' V' :: int
        assume "- (10 ^ 9) \<le> al'" "al' < be" "?cF x k g = Inr (V', g)"
        with ch [OF _ _ Suc.prems(3)] True
        show "\<exists>W. ?cP x k al' be g = Inr (W, g) \<and> soft al' be V' W" by blast
      next
        fix x k V' gV'
        assume "?cF x k g = Inr (V', gV')"
        with chg True show "gV' = g" by blast
      qed
      with True show ?thesis by simp
    next
      case False
      with full have f: "minimax_loop False ?cF (shuf path actions) 0 (10 ^ 9) None g = Inr (V, aV, gV)"
        by simp
      have "\<exists>W aW. search_loop False ?cP (shuf path actions) 0 (10 ^ 9) None al be g
                    = Inr (W, aW, g) \<and> soft al be V W"
      proof (rule search_loop_min [where hi = "10 ^ 9" and childF = ?cF, OF _ _ f])
        show "be \<le> 10 ^ 9" by (rule Suc.prems(3))
        show "al < be" by (rule Suc.prems(2))
        show "be = min be (10 ^ 9)" using Suc.prems(3) by simp
        show "10 ^ 9 \<le> (10 ^ 9 :: int)" by simp
        show "be \<le> 10 ^ 9 \<or> 10 ^ 9 = (10 ^ 9 :: int)" by simp
      next
        fix x k and be' V' :: int
        assume "be' \<le> 10 ^ 9" "al < be'" "?cF x k g = Inr (V', g)"
        with ch [OF Suc.prems(1)] False
        show "\<exists>W. ?cP x k al be' g = Inr (W, g) \<and> soft al be' V' W" by blast
      next
        fix x k V' gV'
        assume "?cF x k g = Inr (V', gV')"
        with chg False show "gV' = g" by blast
      qed
      with False show ?thesis by simp
    qed
    with gV na recurse_inner [OF \<open>\<not> is_terminal (Suc n) a b\<close>, of shuf meisash s mx al be path g]
    show ?thesis by simp
  qed
qed

text \<open>
  C1, as stated, fails in two ways. (1) The multipliers are drawn from one sequence in call
  order, and a pruned run draws fewer of them: with Ash (one Pokemon, hp 30 of 100, atk 10,
  one Large elixir) against Team Rocket (one Pokemon, hp 100, atk 10), depth 2, the candidates
  in the order legalactions gives them and every draw 1.0 except the ninth, 1.125, the
  alpha-beta recursion returns \<open>-6\<close> at the root and pure minimax \<open>-5\<close>: the cut in the
  second subtree skips one attack, so the ninth draw goes to another attack of the third
  subtree. (2) The window starts at \<open>-1e9, 1e9\<close>: with a Pokemon of hp 3000000000 the first
  score exceeds \<open>1e9\<close> and the root loop breaks after its first candidate, returning
  2999999810 where pure minimax returns 2999999853.
\<close>

theorem C1_counterexample:
  "root_value (root_search idshuf ashA rocketA bsW True 2 (ninth_draw (9/8))) = Inr (- 6)
   \<and> root_value (root_minimax idshuf ashA rocketA bsW True 2 (ninth_draw (9/8))) = Inr (- 5)
   \<and> root_value (root_search idshuf ashBig rocketBig bsW True 1 (const_rng 1)) = Inr 2999999810
   \<and> root_value (root_minimax idshuf ashBig rocketBig bsW True 1 (const_rng 1)) = Inr 2999999853"
  by code_simp

text \<open>
  C1, amended: for every battle state, pair of agents, search depth and ordering of the
  candidate actions at every node, when every random damage multiplier has the same value
  and pure minimax (the same recursion without the break) returns a root value strictly
  between \<open>-10^9\<close> and \<open>10^9\<close>, the alpha-beta recursion of decide\_action returns the same
  root value.
\<close>

theorem C1_pruning_keeps_root_value:
  assumes "const_stream g"
    and "root_value (root_minimax shuf me opp bs meisash depth g) = Inr v"
    and "- (10 ^ 9) < v" and "v < 10 ^ 9"
  shows "root_value (root_search shuf me opp bs meisash depth g) = Inr v"
proof -
  from assms(2) obtain aV gV where
    m: "minimax shuf meisash depth (if meisash then me else opp) (if meisash then opp else me) bs
          meisash [] g = Inr (v, aV, gV)"
    by (auto simp: root_value_def root_minimax_def split: sum.splits)
  have "- (10 ^ 9) \<le> (- (10 ^ 9) :: int)" "- (10 ^ 9) < (10 ^ 9 :: int)" "10 ^ 9 \<le> (10 ^ 9 :: int)"
    by simp_all
  from search_agrees_with_minimax [OF assms(1) this m] obtain W aW where
    r: "recurse shuf meisash depth (if meisash then me else opp) (if meisash then opp else me) bs
          meisash (- (10 ^ 9)) (10 ^ 9) [] g = Inr (W, aW, g)"
    and s: "soft (- (10 ^ 9)) (10 ^ 9) v W"
    by blast
  from s assms(3,4) have "W = v"
    unfolding soft_def by linarith
  with r show ?thesis
    by (simp add: root_value_def root_search_def)
qed

theorem C1_pruning_keeps_root_value_witness:
  "root_value (root_search idshuf ashA rocketA bsW True 2 (const_rng 1)) = Inr (- 5)
   \<and> root_value (root_search idshuf rocketA ashA bsW False 2 (const_rng 1)) = Inr (- 3)"
proof -
  have c: "const_stream (const_rng 1)"
    by (simp add: const_stream_def const_rng_def)
  have m1: "root_value (root_minimax idshuf ashA rocketA bsW True 2 (const_rng 1)) = Inr (- 5)"
    by code_simp
  have m2: "root_value (root_minimax idshuf rocketA ashA bsW False 2 (const_rng 1)) = Inr (- 3)"
    by code_simp
  have b1: "- (10 ^ 9) < (- 5 :: int)" "(- 5 :: int) < 10 ^ 9"
    by simp_all
  have b2: "- (10 ^ 9) < (- 3 :: int)" "(- 3 :: int) < 10 ^ 9"
    by simp_all
  from C1_pruning_keeps_root_value [OF c m1 b1] C1_pruning_keeps_root_value [OF c m2 b2]
  show ?thesis by simp
qed

section \<open>A* returns a shortest route\<close>

lemma Cells_eq: "Cells = {0..<24} \<times> {0..<11}"
  by (auto simp: Cells_def inbounds_def GRIDW_def GRIDH_def)

lemma finite_Cells: "finite Cells"
  by (simp add: Cells_eq)

lemma card_Cells: "card Cells = 264"
  by (simp add: Cells_eq)

lemma grid_get_ok:
  assumes "grid_ok grid" "inbounds x y"
  shows "grid_get grid x y = Inr (grid ! nat y ! nat x)"
proof -
  from assms have y: "0 \<le> y" "y < int (length grid)"
    by (auto simp: grid_ok_def inbounds_def)
  then have "grid ! nat y \<in> set grid" by simp
  with assms have x: "0 \<le> x" "x < int (length (grid ! nat y))"
    by (auto simp: grid_ok_def inbounds_def)
  from x y show ?thesis by (simp add: grid_get_def pyidx_def)
qed

lemma adjacent_manhattan: "adjacent c d \<Longrightarrow> manhattan c t \<le> manhattan d t + 1"
  by (auto simp: adjacent_def DIRS_def manhattan_def)

lemma adjacent_iff:
  "adjacent c d \<longleftrightarrow> (\<exists>dir \<in> set DIRS. d = (fst c + fst dir, snd c + snd dir))"
  by (cases c; cases d) (auto simp: adjacent_def DIRS_def)

lemma adjacent_neq: "adjacent c d \<Longrightarrow> c \<noteq> d"
  by (auto simp: adjacent_def DIRS_def)

lemma steps_ok_manhattan:
  "q \<noteq> [] \<Longrightarrow> steps_ok q \<Longrightarrow> manhattan (hd q) (last q) \<le> int (length q) - 1"
proof (induction q rule: steps_ok.induct)
  case 1
  then show ?case by simp
next
  case (2 c)
  then show ?case by (simp add: manhattan_def)
next
  case (3 c d cs)
  then have "manhattan d (last (d # cs)) \<le> int (length (d # cs)) - 1" by simp
  moreover from 3 have "manhattan c (last (d # cs)) \<le> manhattan d (last (d # cs)) + 1"
    by (simp add: adjacent_manhattan)
  ultimately show ?case by simp
qed

lemma steps_ok_snoc:
  "steps_ok (xs @ [y]) \<longleftrightarrow> steps_ok xs \<and> (xs = [] \<or> adjacent (last xs) y)"
  by (induction xs rule: steps_ok.induct) auto

lemma min_candidates_nonempty:
  assumes "openset st \<noteq> []"
  shows "min_candidates st \<noteq> []"
proof -
  let ?f = "get_or_1e9 (fscore st)"
  from assms have "set (openset st) \<noteq> {}" by simp
  then obtain n where n: "n \<in> set (openset st)" "\<forall>m \<in> set (openset st). ?f n \<le> ?f m"
    using ex_min_if_finite [of "?f ` set (openset st)"]
    by (metis (mono_tags, lifting) List.finite_set arg_min_least arg_min_if_finite(1))
  then have "n \<in> set (min_candidates st)"
    by (simp add: min_candidates_def list_all_iff)
  then show ?thesis by auto
qed

lemma pick_one_in: "cs \<noteq> [] \<Longrightarrow> pick_one t cs \<in> set cs"
  by (simp add: pick_one_def)

lemma current_minimal:
  assumes "openset st \<noteq> []"
  shows "pick_one t (min_candidates st) \<in> set (openset st)
         \<and> (\<forall>m \<in> set (openset st).
               get_or_1e9 (fscore st) (pick_one t (min_candidates st)) \<le> get_or_1e9 (fscore st) m)"
proof -
  have "pick_one t (min_candidates st) \<in> set (min_candidates st)"
    using min_candidates_nonempty [OF assms] by (rule pick_one_in)
  then show ?thesis by (simp add: min_candidates_def list_all_iff)
qed

lemma ainvD:
  assumes "ainv grid start goal X st"
  shows "gscore st start = Some 0" "came st start = None"
    and "\<And>n c. came st n = Some c \<Longrightarrow>
           (\<exists>gn gc. gscore st n = Some gn \<and> gscore st c = Some gc \<and> gc + 1 \<le> gn)
           \<and> adjacent c n \<and> cell_free grid n"
    and "\<And>n gn. gscore st n = Some gn \<Longrightarrow>
           0 \<le> gn \<and> gn < int (card (dom (gscore st))) \<and> (n \<noteq> start \<longrightarrow> came st n \<noteq> None)
           \<and> fscore st n = Some (gn + manhattan n goal)"
    and "dom (gscore st) \<subseteq> Cells"
    and "set (openset st) \<subseteq> dom (gscore st)"
    and "\<And>n gn n'. gscore st n = Some gn \<Longrightarrow> n \<notin> set (openset st) \<Longrightarrow> n \<notin> X
             \<Longrightarrow> adjacent n n' \<Longrightarrow> cell_free grid n'
           \<Longrightarrow> \<exists>g'. gscore st n' = Some g' \<and> g' \<le> gn + 1"
    and "goal \<in> dom (gscore st) \<Longrightarrow> goal \<in> set (openset st)"
  using assms unfolding ainv_def by blast+

lemma card_dom_le: 
  assumes "dom (g :: cell \<rightharpoonup> int) \<subseteq> Cells"
  shows "card (dom g) \<le> 264" "finite (dom g)"
proof -
  show "finite (dom g)" using assms finite_Cells by (rule finite_subset)
  have "card (dom g) \<le> card Cells" using assms finite_Cells by (simp add: card_mono)
  then show "card (dom g) \<le> 264" by (simp add: card_Cells)
qed

lemma get_or_1e9_nonneg:
  assumes "ainv grid start goal X st"
  shows "0 \<le> get_or_1e9 (gscore st) c"
proof (cases "gscore st c")
  case None
  then show ?thesis by (simp add: get_or_1e9_def)
next
  case (Some v)
  with ainvD(4) [OF assms Some] show ?thesis by (simp add: get_or_1e9_def)
qed

lemma potential_decrease:
  assumes inv: "ainv grid start goal X st" and inv': "ainv grid start goal X st'"
    and le: "\<And>c. get_or_1e9 (gscore st') c \<le> get_or_1e9 (gscore st) c"
    and lt: "n \<in> Cells" "get_or_1e9 (gscore st') n < get_or_1e9 (gscore st) n"
  shows "potential st' < potential st"
proof -
  have "(\<Sum>c \<in> Cells. get_or_1e9 (gscore st') c) < (\<Sum>c \<in> Cells. get_or_1e9 (gscore st) c)"
    using finite_Cells
  proof (rule sum_strict_mono_ex1)
    show "\<forall>c \<in> Cells. get_or_1e9 (gscore st') c \<le> get_or_1e9 (gscore st) c"
      using le by simp
    show "\<exists>c \<in> Cells. get_or_1e9 (gscore st') c < get_or_1e9 (gscore st) c"
      using lt by blast
  qed
  moreover have "0 \<le> (\<Sum>c \<in> Cells. get_or_1e9 (gscore st') c)"
    by (rule sum_nonneg) (simp add: get_or_1e9_nonneg [OF inv'])
  ultimately show ?thesis by (simp add: potential_def)
qed

lemma relax_update_inv:
  assumes inv: "ainv grid start goal {cur} st"
    and gc: "gscore st cur = Some gc"
    and notin: "cur \<notin> set (openset st)"
    and adj: "adjacent cur n'"
    and free: "cell_free grid n'"
    and lt: "gc + 1 < get_or_1e9 (gscore st) n'"
  shows "ainv grid start goal {cur}
           (st\<lparr>came := (came st)(n' \<mapsto> cur),
               gscore := (gscore st)(n' \<mapsto> gc + 1),
               fscore := (fscore st)(n' \<mapsto> gc + 1 + manhattan n' goal),
               openset := List.insert n' (openset st)\<rparr>)"
    (is "ainv grid start goal {cur} ?st'")
proof -
  note i = ainvD [OF inv]
  have gc0: "0 \<le> gc" using i(4) [OF gc] by simp
  have ne: "n' \<noteq> cur" using adj by (auto dest: adjacent_neq)
  have nstart: "n' \<noteq> start"
  proof
    assume "n' = start"
    with lt i(1) gc0 show False by (simp add: get_or_1e9_def)
  qed
  have old: "\<And>v. gscore st n' = Some v \<Longrightarrow> gc + 1 < v"
    using lt by (simp add: get_or_1e9_def)
  have fin: "finite (dom (gscore st))" using i(5) by (rule card_dom_le(2))
  have card': "card (dom (gscore st)) \<le> card (dom ((gscore st)(n' \<mapsto> gc + 1)))"
    using fin by (simp add: card_insert_le)
  have c1: "gscore ?st' start = Some 0" "came ?st' start = None"
    using i(1,2) nstart by simp_all
  have c3: "\<And>n c. came ?st' n = Some c \<Longrightarrow>
           (\<exists>gn gc'. gscore ?st' n = Some gn \<and> gscore ?st' c = Some gc' \<and> gc' + 1 \<le> gn)
           \<and> adjacent c n \<and> cell_free grid n"
  proof -
    fix n c assume cm: "came ?st' n = Some c"
    show "(\<exists>gn gc'. gscore ?st' n = Some gn \<and> gscore ?st' c = Some gc' \<and> gc' + 1 \<le> gn)
           \<and> adjacent c n \<and> cell_free grid n"
    proof (cases "n = n'")
      case True
      with cm have "c = cur" by simp
      with True gc ne adj free show ?thesis by simp
    next
      case False
      with cm have cm0: "came st n = Some c" by simp
      from i(3) [OF cm0] obtain gn gc' where
        g: "gscore st n = Some gn" "gscore st c = Some gc'" "gc' + 1 \<le> gn"
        and a: "adjacent c n" "cell_free grid n" by blast
      show ?thesis
      proof (cases "c = n'")
        case True
        with g(2) old have "gc + 1 < gc'" by simp
        with True False g a show ?thesis by simp
      next
        case c: False
        with False g a show ?thesis by simp
      qed
    qed
  qed
  have c4: "\<And>n gn. gscore ?st' n = Some gn \<Longrightarrow>
           0 \<le> gn \<and> gn < int (card (dom (gscore ?st'))) \<and> (n \<noteq> start \<longrightarrow> came ?st' n \<noteq> None)
           \<and> fscore ?st' n = Some (gn + manhattan n goal)"
  proof -
    fix n gn assume g: "gscore ?st' n = Some gn"
    show "0 \<le> gn \<and> gn < int (card (dom (gscore ?st'))) \<and> (n \<noteq> start \<longrightarrow> came ?st' n \<noteq> None)
           \<and> fscore ?st' n = Some (gn + manhattan n goal)"
    proof (cases "n = n'")
      case True
      with g have gn: "gn = gc + 1" by simp
      have "gc + 1 < int (card (dom ((gscore st)(n' \<mapsto> gc + 1))))"
      proof (cases "gscore st n'")
        case None
        then have "n' \<notin> dom (gscore st)" by auto
        then have "card (dom ((gscore st)(n' \<mapsto> gc + 1))) = Suc (card (dom (gscore st)))"
          using fin by simp
        with i(4) [OF gc] show ?thesis by simp
      next
        case (Some v)
        then have "dom ((gscore st)(n' \<mapsto> gc + 1)) = dom (gscore st)" by auto
        with i(4) [OF Some] old [OF Some] show ?thesis by simp
      qed
      with True gn gc0 show ?thesis by simp
    next
      case False
      with g have g0: "gscore st n = Some gn" by simp
      from i(4) [OF g0] card' False show ?thesis by simp
    qed
  qed
  have c5: "dom (gscore ?st') \<subseteq> Cells"
    using i(5) free by (auto simp: Cells_def cell_free_def)
  have c6: "set (openset ?st') \<subseteq> dom (gscore ?st')"
    using i(6) by auto
  have c7: "\<And>n gn m. gscore ?st' n = Some gn \<Longrightarrow> n \<notin> set (openset ?st') \<Longrightarrow> n \<notin> {cur}
             \<Longrightarrow> adjacent n m \<Longrightarrow> cell_free grid m
           \<Longrightarrow> \<exists>g'. gscore ?st' m = Some g' \<and> g' \<le> gn + 1"
  proof -
    fix n gn m
    assume a: "gscore ?st' n = Some gn" "n \<notin> set (openset ?st')" "n \<notin> {cur}"
      "adjacent n m" "cell_free grid m"
    from a(2) have nn: "n \<noteq> n'" "n \<notin> set (openset st)" by auto
    with a(1) have g0: "gscore st n = Some gn" by simp
    from i(7) [OF g0 nn(2) a(3,4,5)] obtain g' where g': "gscore st m = Some g'" "g' \<le> gn + 1"
      by blast
    show "\<exists>g'. gscore ?st' m = Some g' \<and> g' \<le> gn + 1"
    proof (cases "m = n'")
      case True
      with g' old have "gc + 1 < g'" by simp
      with True g' show ?thesis by simp
    next
      case False
      with g' show ?thesis by simp
    qed
  qed
  have c8: "goal \<in> dom (gscore ?st') \<Longrightarrow> goal \<in> set (openset ?st')"
    using i(8) by (cases "goal = n'") auto
  show ?thesis
    unfolding ainv_def using c1 c3 c4 c5 c6 c7 c8 by blast
qed

lemma relax_step:
  assumes inv: "ainv grid start goal {cur} st"
    and gok: "grid_ok grid"
    and gc: "gscore st cur = Some gc"
    and notin: "cur \<notin> set (openset st)"
    and d: "d \<in> set DIRS"
  shows "\<exists>st'. relax grid goal cur st d = Inr st'
           \<and> step_post grid start goal cur gc st st'
           \<and> (cell_free grid (fst cur + fst d, snd cur + snd d)
                \<longrightarrow> (\<exists>g'. gscore st' (fst cur + fst d, snd cur + snd d) = Some g' \<and> g' \<le> gc + 1))"
proof -
  let ?n = "(fst cur + fst d, snd cur + snd d)"
  note i = ainvD [OF inv]
  have same: "step_post grid start goal cur gc st st"
    using inv gc notin by (simp add: step_post_def)
  show ?thesis
  proof (cases "inbounds (fst cur + fst d) (snd cur + snd d)")
    case False
    then have "relax grid goal cur st d = Inr st" by (simp add: relax_def)
    moreover from False have "\<not> cell_free grid ?n" by (simp add: cell_free_def)
    ultimately show ?thesis using same by simp
  next
    case True
    note gg = grid_get_ok [OF gok True]
    show ?thesis
    proof (cases "grid ! nat (snd cur + snd d) ! nat (fst cur + fst d) = 1")
      case blocked: True
      with True gg have "relax grid goal cur st d = Inr st" by (simp add: relax_def)
      moreover from blocked gg have "\<not> cell_free grid ?n" by (simp add: cell_free_def)
      ultimately show ?thesis using same by simp
    next
      case unblocked: False
      with True gg have free: "cell_free grid ?n" by (simp add: cell_free_def)
      have adj: "adjacent cur ?n" using d by (auto simp: adjacent_iff)
      have gcv: "get_or_1e9 (gscore st) cur = gc" using gc by (simp add: get_or_1e9_def)
      show ?thesis
      proof (cases "gc + 1 < get_or_1e9 (gscore st) ?n")
        case no: False
        with True gg unblocked gcv have r: "relax grid goal cur st d = Inr st"
          by (simp add: relax_def Let_def)
        have "gc < 264"
          using i(4) [OF gc] card_dom_le(1) [OF i(5)] by linarith
        with no obtain g' where "gscore st ?n = Some g'" "g' \<le> gc + 1"
          by (cases "gscore st ?n") (auto simp: get_or_1e9_def)
        with r same show ?thesis by simp
      next
        case yes: True
        let ?st' = "st\<lparr>came := (came st)(?n \<mapsto> cur),
               gscore := (gscore st)(?n \<mapsto> gc + 1),
               fscore := (fscore st)(?n \<mapsto> gc + 1 + manhattan ?n goal),
               openset := List.insert ?n (openset st)\<rparr>"
        from True gg unblocked gcv yes have r: "relax grid goal cur st d = Inr ?st'"
          by (simp add: relax_def Let_def)
        have inv': "ainv grid start goal {cur} ?st'"
          using inv gc notin adj free yes by (rule relax_update_inv)
        have ne: "?n \<noteq> cur" using adj by (auto dest: adjacent_neq)
        have le: "\<And>c. get_or_1e9 (gscore ?st') c \<le> get_or_1e9 (gscore st) c"
          using yes by (simp add: get_or_1e9_def)
        have "?n \<in> Cells" using True by (simp add: Cells_def)
        moreover have "get_or_1e9 (gscore ?st') ?n < get_or_1e9 (gscore st) ?n"
          using yes by (simp add: get_or_1e9_def)
        ultimately have pot: "potential ?st' < potential st"
          by (rule potential_decrease [OF inv inv' le])
        have mono: "\<forall>n v. gscore st n = Some v \<longrightarrow> (\<exists>v'. gscore ?st' n = Some v' \<and> v' \<le> v)"
          using yes by (auto simp: get_or_1e9_def)
        have "step_post grid start goal cur gc st ?st'"
          unfolding step_post_def using inv' gc ne notin mono pot by simp
        with r show ?thesis by simp
      qed
    qed
  qed
qed

lemma step_post_trans:
  assumes "step_post grid start goal cur gc st st1" "step_post grid start goal cur gc st1 st2"
  shows "step_post grid start goal cur gc st st2"
proof -
  from assms have mono: "\<forall>n v. gscore st n = Some v \<longrightarrow> (\<exists>v'. gscore st2 n = Some v' \<and> v' \<le> v)"
    unfolding step_post_def by (meson order_trans)
  from assms have "st2 = st \<or> potential st2 < potential st"
    unfolding step_post_def by auto
  with assms mono show ?thesis unfolding step_post_def by simp
qed

lemma relax_all_steps:
  assumes inv: "ainv grid start goal {cur} st"
    and gok: "grid_ok grid"
    and gc: "gscore st cur = Some gc"
    and notin: "cur \<notin> set (openset st)"
    and ds: "set ds \<subseteq> set DIRS"
  shows "\<exists>st'. relax_all grid goal cur st ds = Inr st'
           \<and> step_post grid start goal cur gc st st'
           \<and> (\<forall>d \<in> set ds. cell_free grid (fst cur + fst d, snd cur + snd d)
                \<longrightarrow> (\<exists>g'. gscore st' (fst cur + fst d, snd cur + snd d) = Some g' \<and> g' \<le> gc + 1))"
  using inv gc notin ds
proof (induction ds arbitrary: st)
  case Nil
  then show ?case by (simp add: step_post_def)
next
  case (Cons d ds)
  from Cons.prems(4) have d: "d \<in> set DIRS" and ds: "set ds \<subseteq> set DIRS" by auto
  from relax_step [OF Cons.prems(1) gok Cons.prems(2,3) d] obtain st1 where
    r1: "relax grid goal cur st d = Inr st1" and p1: "step_post grid start goal cur gc st st1"
    and n1: "cell_free grid (fst cur + fst d, snd cur + snd d)
                \<longrightarrow> (\<exists>g'. gscore st1 (fst cur + fst d, snd cur + snd d) = Some g' \<and> g' \<le> gc + 1)"
    by blast
  from p1 have inv1: "ainv grid start goal {cur} st1" and gc1: "gscore st1 cur = Some gc"
    and no1: "cur \<notin> set (openset st1)"
    by (simp_all add: step_post_def)
  from Cons.IH [OF inv1 gc1 no1 ds] obtain st2 where
    r2: "relax_all grid goal cur st1 ds = Inr st2" and p2: "step_post grid start goal cur gc st1 st2"
    and n2: "\<forall>d \<in> set ds. cell_free grid (fst cur + fst d, snd cur + snd d)
                \<longrightarrow> (\<exists>g'. gscore st2 (fst cur + fst d, snd cur + snd d) = Some g' \<and> g' \<le> gc + 1)"
    by blast
  from p2 have mono2: "\<forall>n v. gscore st1 n = Some v \<longrightarrow> (\<exists>v'. gscore st2 n = Some v' \<and> v' \<le> v)"
    by (simp add: step_post_def)
  have nd: "cell_free grid (fst cur + fst d, snd cur + snd d)
                \<longrightarrow> (\<exists>g'. gscore st2 (fst cur + fst d, snd cur + snd d) = Some g' \<and> g' \<le> gc + 1)"
    using n1 mono2 by (meson order_trans)
  from r1 r2 have "relax_all grid goal cur st (d # ds) = Inr st2" by simp
  moreover have "step_post grid start goal cur gc st st2"
    using p1 p2 by (rule step_post_trans)
  ultimately show ?case using nd n2 by auto
qed

lemma expand_inv:
  assumes inv: "ainv grid start goal {} st"
    and gok: "grid_ok grid"
    and cur: "cur \<in> set (openset st)" "cur \<noteq> goal"
  shows "\<exists>st'. relax_all grid goal cur (st\<lparr>openset := removeAll cur (openset st)\<rparr>) DIRS = Inr st'
           \<and> ainv grid start goal {} st'
           \<and> (potential st' < potential st
               \<or> potential st' = potential st \<and> length (openset st') < length (openset st))"
proof -
  let ?st0 = "st\<lparr>openset := removeAll cur (openset st)\<rparr>"
  note i = ainvD [OF inv]
  from cur(1) i(6) obtain gc where gc: "gscore st cur = Some gc" by auto
  have inv0: "ainv grid start goal {cur} ?st0"
    unfolding ainv_def using i cur(2) by (auto simp del: removeAll.simps)
  have gc0: "gscore ?st0 cur = Some gc" using gc by simp
  have no0: "cur \<notin> set (openset ?st0)" by simp
  from relax_all_steps [OF inv0 gok gc0 no0 subset_refl] obtain st' where
    r: "relax_all grid goal cur ?st0 DIRS = Inr st'" and p: "step_post grid start goal cur gc ?st0 st'"
    and n: "\<forall>d \<in> set DIRS. cell_free grid (fst cur + fst d, snd cur + snd d)
                \<longrightarrow> (\<exists>g'. gscore st' (fst cur + fst d, snd cur + snd d) = Some g' \<and> g' \<le> gc + 1)"
    by blast
  from p have inv': "ainv grid start goal {cur} st'" and gc': "gscore st' cur = Some gc"
    and no': "cur \<notin> set (openset st')" and dec: "st' = ?st0 \<or> potential st' < potential ?st0"
    by (simp_all add: step_post_def)
  note j = ainvD [OF inv']
  have closed: "\<And>n gn m. gscore st' n = Some gn \<Longrightarrow> n \<notin> set (openset st') \<Longrightarrow> n \<notin> {}
             \<Longrightarrow> adjacent n m \<Longrightarrow> cell_free grid m
           \<Longrightarrow> \<exists>g'. gscore st' m = Some g' \<and> g' \<le> gn + 1"
  proof -
    fix n gn m
    assume a: "gscore st' n = Some gn" "n \<notin> set (openset st')" "adjacent n m" "cell_free grid m"
    show "\<exists>g'. gscore st' m = Some g' \<and> g' \<le> gn + 1"
    proof (cases "n = cur")
      case True
      from a(3) True obtain d where "d \<in> set DIRS" "m = (fst cur + fst d, snd cur + snd d)"
        by (auto simp: adjacent_iff)
      with n a(4) True a(1) gc' show ?thesis by auto
    next
      case False
      then have "n \<notin> {cur}" by simp
      from j(7) [OF a(1,2) this a(3,4)] show ?thesis .
    qed
  qed
  have inv'': "ainv grid start goal {} st'"
    unfolding ainv_def using j(1,2,3,4,5,6,8) closed by blast
  have pot0: "potential ?st0 = potential st" by (simp add: potential_def)
  have "length (removeAll cur (openset st)) < length (openset st)"
    using cur(1) by (rule length_removeAll_less)
  with dec pot0 have "potential st' < potential st
               \<or> potential st' = potential st \<and> length (openset st') < length (openset st)"
    by auto
  with r inv'' show ?thesis by blast
qed

lemma frontier:
  assumes inv: "ainv grid start goal {} st"
  shows "q \<noteq> [] \<Longrightarrow> steps_ok q \<Longrightarrow> list_all (cell_free grid) q \<Longrightarrow> gscore st (hd q) = Some ga
         \<Longrightarrow> (\<exists>n \<in> set (openset st). \<exists>gn. gscore st n = Some gn
                  \<and> gn + manhattan n (last q) \<le> ga + int (length q) - 1)
             \<or> (\<exists>gl. gscore st (last q) = Some gl \<and> gl \<le> ga + int (length q) - 1)"
proof (induction q arbitrary: ga rule: steps_ok.induct)
  case 1
  then show ?case by simp
next
  case (2 c)
  then show ?case by simp
next
  case (3 c d cs)
  show ?case
  proof (cases "c \<in> set (openset st)")
    case True
    have "manhattan (hd (c # d # cs)) (last (c # d # cs)) \<le> int (length (c # d # cs)) - 1"
      using "3.prems"(2) by (intro steps_ok_manhattan) simp_all
    with True "3.prems"(4) show ?thesis by force
  next
    case False
    from "3.prems" have a: "adjacent c d" "cell_free grid d" and g: "gscore st c = Some ga"
      by simp_all
    from ainvD(7) [OF inv g False _ a] obtain gd where gd: "gscore st d = Some gd" "gd \<le> ga + 1"
      by blast
    from "3.prems" have "steps_ok (d # cs)" "list_all (cell_free grid) (d # cs)" by simp_all
    from "3.IH" [OF _ this, of gd] gd(1)
    have "(\<exists>n \<in> set (openset st). \<exists>gn. gscore st n = Some gn
                  \<and> gn + manhattan n (last (d # cs)) \<le> gd + int (length (d # cs)) - 1)
             \<or> (\<exists>gl. gscore st (last (d # cs)) = Some gl \<and> gl \<le> gd + int (length (d # cs)) - 1)"
      by simp
    then show ?thesis
    proof
      assume "\<exists>n \<in> set (openset st). \<exists>gn. gscore st n = Some gn
                  \<and> gn + manhattan n (last (d # cs)) \<le> gd + int (length (d # cs)) - 1"
      then obtain n gn where "n \<in> set (openset st)" "gscore st n = Some gn"
        "gn + manhattan n (last (d # cs)) \<le> gd + int (length (d # cs)) - 1" by blast
      with gd(2) have "n \<in> set (openset st) \<and> gscore st n = Some gn
          \<and> gn + manhattan n (last (c # d # cs)) \<le> ga + int (length (c # d # cs)) - 1"
        by simp
      then show ?thesis by blast
    next
      assume "\<exists>gl. gscore st (last (d # cs)) = Some gl \<and> gl \<le> gd + int (length (d # cs)) - 1"
      then obtain gl where "gscore st (last (d # cs)) = Some gl" "gl \<le> gd + int (length (d # cs)) - 1"
        by blast
      with gd(2) have "gscore st (last (c # d # cs)) = Some gl \<and> gl \<le> ga + int (length (c # d # cs)) - 1"
        by simp
      then show ?thesis by blast
    qed
  qed
qed

lemma goal_bound:
  assumes inv: "ainv grid start goal {} st"
    and r: "route grid start goal q"
    and ne: "openset st \<noteq> [] \<longrightarrow> goal \<in> set (openset st)
             \<and> (\<forall>m \<in> set (openset st). get_or_1e9 (fscore st) goal \<le> get_or_1e9 (fscore st) m)"
  shows "openset st \<noteq> [] \<and> (\<exists>gg. gscore st goal = Some gg \<and> gg \<le> int (length q) - 1)"
proof -
  note i = ainvD [OF inv]
  from r have q: "q \<noteq> []" "hd q = start" "last q = goal" "list_all (cell_free grid) q" "steps_ok q"
    by (simp_all add: route_def)
  from frontier [OF inv q(1,5,4), of 0] i(1) q(2,3)
  consider (op) n gn where "n \<in> set (openset st)" "gscore st n = Some gn"
      "gn + manhattan n goal \<le> int (length q) - 1"
    | (gl) gl where "gscore st goal = Some gl" "gl \<le> int (length q) - 1"
    by auto
  then show ?thesis
  proof cases
    case op
    then have nonempty: "openset st \<noteq> []" by auto
    with ne have gin: "goal \<in> set (openset st)"
      and mn: "get_or_1e9 (fscore st) goal \<le> get_or_1e9 (fscore st) n"
      using op(1) by auto
    from gin i(6) obtain gg where gg: "gscore st goal = Some gg" by auto
    from i(4) [OF gg] have "fscore st goal = Some gg" by (simp add: manhattan_def)
    moreover from i(4) [OF op(2)] have "fscore st n = Some (gn + manhattan n goal)" by simp
    ultimately have "gg \<le> gn + manhattan n goal" using mn by (simp add: get_or_1e9_def)
    with op(3) gg nonempty show ?thesis by simp
  next
    case gl
    then have "goal \<in> dom (gscore st)" by auto
    with i(8) have "goal \<in> set (openset st)" by simp
    then have "openset st \<noteq> []" by auto
    with gl show ?thesis by simp
  qed
qed

lemma chain_exists:
  assumes inv: "ainv grid start goal X st"
  shows "gscore st n = Some gn \<Longrightarrow> \<exists>ch. is_chain (came st) n ch \<and> int (length ch) \<le> gn"
proof (induction "nat gn" arbitrary: n gn rule: less_induct)
  case less
  note i = ainvD [OF inv]
  show ?case
  proof (cases "came st n")
    case None
    then have "is_chain (came st) n []" by simp
    moreover have "0 \<le> gn" using i(4) [OF less.prems] by simp
    ultimately have "is_chain (came st) n [] \<and> int (length ([] :: cell list)) \<le> gn" by simp
    then show ?thesis by blast
  next
    case (Some c)
    from i(3) [OF Some] less.prems obtain gc where
      gc: "gscore st c = Some gc" "gc + 1 \<le> gn" by auto
    have "0 \<le> gc" using i(4) [OF gc(1)] by simp
    with gc(2) have "nat gc < nat gn" by simp
    from less.hyps [OF this gc(1)] obtain ch where "is_chain (came st) c ch" "int (length ch) \<le> gc"
      by blast
    with Some gc(2) have "is_chain (came st) n (c # ch) \<and> int (length (c # ch)) \<le> gn" by simp
    then show ?thesis by blast
  qed
qed

lemma walk_back_chain:
  "is_chain cm n ch \<Longrightarrow> walk_back cm n acc = Some (rev (acc @ ch))"
proof (induction ch arbitrary: n acc)
  case Nil
  then show ?case by (subst walk_back.simps) simp
next
  case (Cons c ch)
  then have "walk_back cm c (acc @ [c]) = Some (rev ((acc @ [c]) @ ch))" by simp
  with Cons.prems show ?case by (subst walk_back.simps) simp
qed

lemma chain_route:
  assumes inv: "ainv grid start goal X st" and sf: "cell_free grid start"
  shows "is_chain (came st) n ch \<Longrightarrow> n \<in> dom (gscore st)
         \<Longrightarrow> hd (rev (n # ch)) = start \<and> list_all (cell_free grid) (rev (n # ch))
             \<and> steps_ok (rev (n # ch))"
proof (induction ch arbitrary: n)
  case Nil
  note i = ainvD [OF inv]
  from Nil obtain gn where "gscore st n = Some gn" "came st n = None" by auto
  with i(4) have "n = start" by blast
  with sf show ?case by simp
next
  case (Cons c ch)
  note i = ainvD [OF inv]
  from Cons.prems have cm: "came st n = Some c" and ch: "is_chain (came st) c ch" by simp_all
  from i(3) [OF cm] have c: "c \<in> dom (gscore st)" and a: "adjacent c n" "cell_free grid n" by auto
  define xs where "xs = rev (c # ch)"
  have ne: "xs \<noteq> []" and lst: "last xs = c" by (simp_all add: xs_def)
  from Cons.IH [OF ch c] have ih: "hd xs = start" "list_all (cell_free grid) xs" "steps_ok xs"
    by (simp_all add: xs_def)
  have r: "rev (n # c # ch) = xs @ [n]" by (simp add: xs_def)
  have "hd (xs @ [n]) = start" using ih(1) ne by simp
  moreover have "list_all (cell_free grid) (xs @ [n])" using ih(2) a(2) by simp
  moreover have "steps_ok (xs @ [n])"
    using ih(3) a(1) lst by (simp add: steps_ok_snoc)
  ultimately show ?case unfolding r by simp
qed

lemma open_nonempty:
  assumes inv: "ainv grid start goal {} st" and r: "route grid start goal q"
  shows "openset st \<noteq> []"
proof -
  note i = ainvD [OF inv]
  from r have q: "q \<noteq> []" "hd q = start" "last q = goal" "list_all (cell_free grid) q" "steps_ok q"
    by (simp_all add: route_def)
  from frontier [OF inv q(1,5,4), of 0] i(1) q(2,3)
  consider (op) n where "n \<in> set (openset st)" | (gl) gl where "gscore st goal = Some gl"
    by auto
  then show ?thesis
  proof cases
    case op
    then show ?thesis by auto
  next
    case gl
    then have "goal \<in> dom (gscore st)" by auto
    with i(8) have "goal \<in> set (openset st)" by simp
    then show ?thesis by auto
  qed
qed

lemma astar_loop_correct:
  assumes gok: "grid_ok grid" and sf: "cell_free grid start" and r: "route grid start goal q"
    and inv: "ainv grid start goal {} st"
  shows "\<exists>p. astar_loop tie grid goal k st = Some (Inr p) \<and> route grid start goal p
             \<and> length p \<le> length q"
proof -
  have "wf (measures [potential, \<lambda>s. length (openset s)])" by simp
  then show ?thesis using inv
  proof (induction st arbitrary: k rule: wf_induct_rule)
    case (less st)
    note inv = less.prems
    have ne: "openset st \<noteq> []" using inv r by (rule open_nonempty)
    define cur where "cur = pick_one (tie k) (min_candidates st)"
    from current_minimal [OF ne, of "tie k"] have cur: "cur \<in> set (openset st)"
      and mn: "\<forall>m \<in> set (openset st). get_or_1e9 (fscore st) cur \<le> get_or_1e9 (fscore st) m"
      by (simp_all add: cur_def)
    show ?case
    proof (cases "cur = goal")
      case True
      with cur mn have "openset st \<noteq> [] \<longrightarrow> goal \<in> set (openset st)
             \<and> (\<forall>m \<in> set (openset st). get_or_1e9 (fscore st) goal \<le> get_or_1e9 (fscore st) m)"
        by simp
      from goal_bound [OF inv r this] obtain gg where
        gg: "gscore st goal = Some gg" "gg \<le> int (length q) - 1" by blast
      from chain_exists [OF inv gg(1)] obtain ch where
        ch: "is_chain (came st) goal ch" "int (length ch) \<le> gg" by blast
      from walk_back_chain [OF ch(1), of "[goal]"]
      have wb: "walk_back (came st) goal [goal] = Some (rev (goal # ch))" by simp
      from gg(1) have "goal \<in> dom (gscore st)" by auto
      from chain_route [OF inv sf ch(1) this]
      have "route grid start goal (rev (goal # ch))" by (simp add: route_def)
      moreover have "length (rev (goal # ch)) \<le> length q" using ch(2) gg(2) by simp
      moreover have "astar_loop tie grid goal k st = Some (Inr (rev (goal # ch)))"
        using ne True wb by (subst astar_loop.simps) (simp add: cur_def [symmetric])
      ultimately show ?thesis by blast
    next
      case False
      from expand_inv [OF inv gok cur False] obtain st' where
        ra: "relax_all grid goal cur (st\<lparr>openset := removeAll cur (openset st)\<rparr>) DIRS = Inr st'"
        and inv': "ainv grid start goal {} st'"
        and dec: "potential st' < potential st
               \<or> potential st' = potential st \<and> length (openset st') < length (openset st)"
        by blast
      from dec have "(st', st) \<in> measures [potential, \<lambda>s. length (openset s)]" by auto
      from less.IH [OF this inv', of "k + 1"] obtain p where
        p: "astar_loop tie grid goal (k + 1) st' = Some (Inr p)" "route grid start goal p"
          "length p \<le> length q" by blast
      have "astar_loop tie grid goal k st = astar_loop tie grid goal (k + 1) st'"
        using ne False ra by (subst astar_loop.simps) (simp add: cur_def [symmetric])
      with p show ?thesis by simp
    qed
  qed
qed

lemma initial_inv:
  assumes sf: "cell_free grid start" and ne: "start \<noteq> goal"
  shows "ainv grid start goal {}
           \<lparr>openset = [start], came = Map.empty, gscore = [start \<mapsto> 0],
            fscore = [start \<mapsto> manhattan start goal]\<rparr>"
  unfolding ainv_def using sf ne
  by (auto simp: Cells_def cell_free_def split: if_splits)

lemma astar_correct:
  assumes gok: "grid_ok grid" and sf: "cell_free grid start" and r: "route grid start goal q"
  shows "\<exists>p. astar tie grid start goal = Some (Inr p) \<and> route grid start goal p
             \<and> length p \<le> length q"
proof (cases "start = goal")
  case True
  from r have "q \<noteq> []" by (simp add: route_def)
  then have "length [start] \<le> length q" by (cases q) simp_all
  moreover have "route grid start goal [start]" using True sf by (simp add: route_def)
  moreover have "astar tie grid start goal = Some (Inr [start])" using True by (simp add: astar_def)
  ultimately show ?thesis by blast
next
  case False
  from astar_loop_correct [OF gok sf r initial_inv [OF sf False]] False
  show ?thesis by (simp add: astar_def)
qed

text \<open>
  C2: for every grid of GRIDH rows of GRIDW cells whose border cells are unblocked, every
  unblocked start and goal in bounds between which a route exists, and every way of
  breaking ties among the open cells of minimal \<open>f\<close>, \<open>astar\<close> returns, without an error, a
  non-empty path that begins at start, ends at goal, is a route (unblocked cells, each
  4-adjacent to the next) and is no longer than any route from start to goal: its number of
  steps is the shortest-path length.
\<close>

theorem C2_astar_shortest_path:
  assumes "grid_ok grid" and "border_unblocked grid"
    and "cell_free grid start" and "cell_free grid goal"
    and "route grid start goal q"
  shows "\<exists>p. astar tie grid start goal = Some (Inr p)
             \<and> p \<noteq> [] \<and> hd p = start \<and> last p = goal \<and> route grid start goal p
             \<and> (\<forall>q'. route grid start goal q' \<longrightarrow> length p \<le> length q')"
proof -
  from astar_correct [OF assms(1,3,5)] obtain p where
    p: "astar tie grid start goal = Some (Inr p)" "route grid start goal p" by blast
  have "\<forall>q'. route grid start goal q' \<longrightarrow> length p \<le> length q'"
  proof (intro allI impI)
    fix q' assume "route grid start goal q'"
    from astar_correct [OF assms(1,3) this, of tie] p(1) show "length p \<le> length q'" by auto
  qed
  with p show ?thesis by (auto simp: route_def)
qed

theorem C2_astar_shortest_path_witness:
  "\<exists>p. astar first_tie demo_grid (1, 2) (5, 2) = Some (Inr p)
        \<and> hd p = (1, 2) \<and> last p = (5, 2) \<and> length p \<le> length demo_route"
proof -
  have 1: "grid_ok demo_grid" by code_simp
  have 2: "border_unblocked demo_grid" by code_simp
  have 3: "cell_free demo_grid (1, 2)" by code_simp
  have 4: "cell_free demo_grid (5, 2)" by code_simp
  have 5: "route demo_grid (1, 2) (5, 2) demo_route" by code_simp
  from C2_astar_shortest_path [OF 1 2 3 4 5, of first_tie] 5 show ?thesis by blast
qed

section \<open>The search mutates only its clones\<close>

lemma keeps_refl: "keeps xs xs"
  by (simp add: keeps_def)

lemma keeps_trans: "keeps xs ys \<Longrightarrow> keeps ys zs \<Longrightarrow> keeps xs zs"
  by (auto simp: keeps_def)

lemma keeps_append: "keeps xs ys \<Longrightarrow> keeps xs (ys @ zs)"
  by (auto simp: keeps_def)

lemma keeps_update: "keeps xs ys \<Longrightarrow> length xs \<le> i \<Longrightarrow> keeps xs (ys[i := v])"
  by (auto simp: keeps_def list_update_append)

lemma keeps_nth: "keeps xs ys \<Longrightarrow> i < length xs \<Longrightarrow> ys ! i = xs ! i"
  by (auto simp: keeps_def nth_append)

lemma keeps_length: "keeps xs ys \<Longrightarrow> length xs \<le> length ys"
  by (auto simp: keeps_def)

lemma extends_refl: "extends s s"
  by (simp add: extends_def keeps_refl)

lemma extends_trans: "extends s s1 \<Longrightarrow> extends s1 s2 \<Longrightarrow> extends s s2"
  unfolding extends_def by (blast intro: keeps_trans)

lemma pyidx_Some: "pyidx xs i = Some j \<Longrightarrow> j < length xs"
  by (auto simp: pyidx_def Let_def split: if_splits)

lemma apply_act_store_cases:
  assumes "apply_act_store s r a idx = (s', res)"
  shows "s' = s
         \<or> (\<exists>j k healamt. j < length (oteam (agt s ! r))
              \<and> s' = s\<lparr>pok := (pok s)[oteam (agt s ! r) ! j := heal (pok s ! (oteam (agt s ! r) ! j)) healamt],
                       dic := (dic s)[oelixirs (agt s ! r) :=
                                dict_set (dic s ! oelixirs (agt s ! r)) k
                                  (dict_get0 (dic s ! oelixirs (agt s ! r)) k - 1)]\<rparr>)"
proof (cases "kind a")
  case ATTACK
  with assms show ?thesis by (simp add: apply_act_store_def Let_def)
next
  case DEFEND
  with assms show ?thesis by (simp add: apply_act_store_def Let_def)
next
  case SWAP
  with assms show ?thesis
    by (cases "arg a") (simp_all add: apply_act_store_def Let_def split: if_splits)
next
  case HEAL
  show ?thesis
  proof (cases "arg a")
    case NoArg
    with HEAL assms show ?thesis by (simp add: apply_act_store_def Let_def)
  next
    case (IntArg i)
    with HEAL assms show ?thesis by (simp add: apply_act_store_def Let_def)
  next
    case (StrArg k)
    show ?thesis
    proof (cases "dict_get0 (dic s ! oelixirs (agt s ! r)) k > 0")
      case False
      with HEAL StrArg assms show ?thesis by (simp add: apply_act_store_def Let_def)
    next
      case pos: True
      show ?thesis
      proof (cases "map_of ELIXIRS k")
        case None
        with HEAL StrArg pos assms show ?thesis by (simp add: apply_act_store_def Let_def)
      next
        case (Some hp)
        obtain healamt price where hp: "hp = (healamt, price)" by (cases hp)
        show ?thesis
        proof (cases "pyidx (oteam (agt s ! r)) idx")
          case None
          with HEAL StrArg pos Some hp assms show ?thesis
            by (simp add: apply_act_store_def Let_def)
        next
          case (Some j)
          with HEAL StrArg pos \<open>map_of ELIXIRS k = Some hp\<close> hp assms
          have "s' = s\<lparr>pok := (pok s)[oteam (agt s ! r) ! j := heal (pok s ! (oteam (agt s ! r) ! j)) healamt],
                       dic := (dic s)[oelixirs (agt s ! r) :=
                                dict_set (dic s ! oelixirs (agt s ! r)) k
                                  (dict_get0 (dic s ! oelixirs (agt s ! r)) k - 1)]\<rparr>"
            by (simp add: apply_act_store_def Let_def)
          with pyidx_Some [OF Some] show ?thesis by blast
        qed
      qed
    qed
  qed
qed

lemma apply_act_store_frame:
  assumes "apply_act_store s r a idx = (s', res)" and "above base s r" and "extends base s"
  shows "extends base s' \<and> agt s' = agt s"
  using apply_act_store_cases [OF assms(1)]
proof
  assume "s' = s"
  with assms(3) show ?thesis by simp
next
  assume "\<exists>j k healamt. j < length (oteam (agt s ! r))
              \<and> s' = s\<lparr>pok := (pok s)[oteam (agt s ! r) ! j := heal (pok s ! (oteam (agt s ! r) ! j)) healamt],
                       dic := (dic s)[oelixirs (agt s ! r) :=
                                dict_set (dic s ! oelixirs (agt s ! r)) k
                                  (dict_get0 (dic s ! oelixirs (agt s ! r)) k - 1)]\<rparr>"
  then obtain j k healamt where j: "j < length (oteam (agt s ! r))"
    and s': "s' = s\<lparr>pok := (pok s)[oteam (agt s ! r) ! j := heal (pok s ! (oteam (agt s ! r) ! j)) healamt],
                       dic := (dic s)[oelixirs (agt s ! r) :=
                                dict_set (dic s ! oelixirs (agt s ! r)) k
                                  (dict_get0 (dic s ! oelixirs (agt s ! r)) k - 1)]\<rparr>"
    by blast
  from j have "oteam (agt s ! r) ! j \<in> set (oteam (agt s ! r))" by simp
  with assms(2) have "length (pok base) \<le> oteam (agt s ! r) ! j" "length (dic base) \<le> oelixirs (agt s ! r)"
    by (simp_all add: above_def)
  with assms(3) show ?thesis
    unfolding s' extends_def by (simp add: keeps_update)
qed

lemma attack_store_cases:
  assumes "attack_store s x atker aidx dfd didx dd f g = (s', res)"
  shows "s' = s
         \<or> (\<exists>j v. j < length (oteam (agt s ! dfd))
               \<and> s' = s\<lparr>pok := (pok s)[oteam (agt s ! dfd) ! j := v]\<rparr>)"
proof (cases "kind x = ATTACK")
  case False
  with assms show ?thesis by (simp add: attack_store_def)
next
  case atk: True
  show ?thesis
  proof (cases "pyidx (oteam (agt s ! atker)) aidx")
    case None
    with atk assms show ?thesis by (simp add: attack_store_def)
  next
    case (Some i)
    note i = Some
    show ?thesis
    proof (cases "alive (pok s ! (oteam (agt s ! atker) ! i))")
      case False
      with atk i assms show ?thesis by (simp add: attack_store_def)
    next
      case a1: True
      show ?thesis
      proof (cases "pyidx (oteam (agt s ! dfd)) didx")
        case None
        with atk i a1 assms show ?thesis by (simp add: attack_store_def)
      next
        case (Some j)
        show ?thesis
        proof (cases "alive (pok s ! (oteam (agt s ! dfd) ! j))")
          case False
          with atk i a1 Some assms show ?thesis by (simp add: attack_store_def)
        next
          case True
          with atk i a1 Some assms
          have "\<exists>v. s' = s\<lparr>pok := (pok s)[oteam (agt s ! dfd) ! j := v]\<rparr>"
            by (auto simp: attack_store_def split: prod.splits)
          with pyidx_Some [OF Some] show ?thesis by blast
        qed
      qed
    qed
  qed
qed

lemma attack_store_frame:
  assumes "attack_store s x atker aidx dfd didx dd f g = (s', res)"
    and "above base s dfd" and "extends base s"
  shows "extends base s' \<and> agt s' = agt s"
  using attack_store_cases [OF assms(1)]
proof
  assume "s' = s"
  with assms(3) show ?thesis by simp
next
  assume "\<exists>j v. j < length (oteam (agt s ! dfd))
               \<and> s' = s\<lparr>pok := (pok s)[oteam (agt s ! dfd) ! j := v]\<rparr>"
  then obtain j v where j: "j < length (oteam (agt s ! dfd))"
    and s': "s' = s\<lparr>pok := (pok s)[oteam (agt s ! dfd) ! j := v]\<rparr>" by blast
  from j have "oteam (agt s ! dfd) ! j \<in> set (oteam (agt s ! dfd))" by simp
  with assms(2) have "length (pok base) \<le> oteam (agt s ! dfd) ! j"
    by (simp add: above_def)
  with assms(3) show ?thesis
    unfolding s' extends_def by (simp add: keeps_update)
qed

lemma above_agt: "agt s' = agt s \<Longrightarrow> above base s r \<Longrightarrow> above base s' r"
  by (simp add: above_def)

lemma stepbattle_store_frame:
  assumes step: "stepbattle_simulation_store s a b bs x y g = (s', res)"
    and ab: "above base s a" "above base s b" and bb: "length (bst base) \<le> bs"
    and ext: "extends base s"
  shows "extends base s'"
proof -
  obtain s1 r1 where a1: "apply_act_store s a x (ashactive (bst s ! bs)) = (s1, r1)"
    by (cases "apply_act_store s a x (ashactive (bst s ! bs))")
  from apply_act_store_frame [OF a1 ab(1) ext] have e1: "extends base s1" and g1: "agt s1 = agt s"
    by simp_all
  show ?thesis
  proof (cases r1)
    case (Inl e)
    with step a1 have "s' = s1" by (simp add: stepbattle_simulation_store_def)
    with e1 show ?thesis by simp
  next
    case (Inr ashidx)
    note r1 = Inr
    obtain s2 r2 where a2: "apply_act_store s1 b y (rocketactive (bst s1 ! bs)) = (s2, r2)"
      by (cases "apply_act_store s1 b y (rocketactive (bst s1 ! bs))")
    from apply_act_store_frame [OF a2 above_agt [OF g1 ab(2)] e1]
    have e2: "extends base s2" and g2: "agt s2 = agt s" using g1 by simp_all
    show ?thesis
    proof (cases r2)
      case (Inl e)
      with step a1 r1 a2 have "s' = s2" by (simp add: stepbattle_simulation_store_def)
      with e2 show ?thesis by simp
    next
      case (Inr rocidx)
      note r2 = Inr
      obtain s3 r3 where a3: "attack_store s2 x a ashidx b rocidx (kind y = DEFEND)
                                (fieldtype (bst s2 ! bs)) g = (s3, r3)"
        by (cases "attack_store s2 x a ashidx b rocidx (kind y = DEFEND) (fieldtype (bst s2 ! bs)) g")
      from attack_store_frame [OF a3 above_agt [OF g2 ab(2)] e2]
      have e3: "extends base s3" and g3: "agt s3 = agt s" using g2 by simp_all
      show ?thesis
      proof (cases r3)
        case (Inl e)
        with step a1 r1 a2 r2 a3 have "s' = s3" by (simp add: stepbattle_simulation_store_def)
        with e3 show ?thesis by simp
      next
        case (Inr g1')
        note r3 = Inr
        obtain s4 r4 where a4: "attack_store s3 y b rocidx a ashidx (kind x = DEFEND)
                                  (fieldtype (bst s3 ! bs)) g1' = (s4, r4)"
          by (cases "attack_store s3 y b rocidx a ashidx (kind x = DEFEND) (fieldtype (bst s3 ! bs)) g1'")
        from attack_store_frame [OF a4 above_agt [OF g3 ab(1)] e3]
        have e4: "extends base s4" by simp
        show ?thesis
        proof (cases r4)
          case (Inl e)
          with step a1 r1 a2 r2 a3 r3 a4 have "s' = s4" by (simp add: stepbattle_simulation_store_def)
          with e4 show ?thesis by simp
        next
          case (Inr g2')
          from step a1 r1 a2 r2 a3 r3 a4 Inr
          have "s' = s4 \<or> (\<exists>v. s' = s4\<lparr>bst := (bst s4)[bs := v]\<rparr>)"
            by (auto simp: stepbattle_simulation_store_def split: sum.splits)
          then show ?thesis
          proof
            assume "s' = s4"
            with e4 show ?thesis by simp
          next
            assume "\<exists>v. s' = s4\<lparr>bst := (bst s4)[bs := v]\<rparr>"
            then obtain v where "s' = s4\<lparr>bst := (bst s4)[bs := v]\<rparr>" by blast
            with e4 bb show ?thesis by (simp add: extends_def keeps_update)
          qed
        qed
      qed
    qed
  qed
qed

lemma cloneagent_store_props:
  assumes "cloneagent_store s a = (s', r)"
  shows "extends s s'" "r = length (agt s)" "above s s' r" "length (agt s') = Suc (length (agt s))"
proof -
  let ?ob = "agt s ! a"
  from assms have s': "s' = s\<lparr>pok := pok s @ map (\<lambda>p. \<lparr>Pokemon.name = Pokemon.name (pok s ! p), ptype = ptype (pok s ! p),
                                 maxhp = maxhp (pok s ! p), hp = hp (pok s ! p), atk = atk (pok s ! p),
                                 dfn = dfn (pok s ! p), alive = alive (pok s ! p)\<rparr>) (oteam ?ob),
            dic := dic s @ [dic s ! oelixirs ?ob],
            agt := agt s @ [\<lparr>oname = oname ?ob, oteam = [length (pok s) ..< length (pok s) + length (oteam ?ob)],
                             ocoins = ocoins ?ob, ofuel = ofuel ?ob, oelixirs = length (dic s)\<rparr>]\<rparr>"
    and r: "r = length (agt s)"
    by (simp_all add: cloneagent_store_def Let_def)
  show "r = length (agt s)" by (rule r)
  show "extends s s'" unfolding s' by (simp add: extends_def keeps_def)
  show "above s s' r" unfolding s' r by (simp add: above_def)
  show "length (agt s') = Suc (length (agt s))" unfolding s' by simp
qed

lemma above_later:
  assumes "above base s r" and "r < length (agt s)" and "extends s s'"
  shows "above base s' r"
proof -
  from assms(3) have "keeps (agt s) (agt s')" by (simp add: extends_def)
  from keeps_nth [OF this assms(2)] assms(1) show ?thesis by (simp add: above_def)
qed

lemma above_weaken:
  assumes "above s1 s2 r" and "extends s s1"
  shows "above s s2 r"
proof -
  from assms(2) have "length (pok s) \<le> length (pok s1)" "length (dic s) \<le> length (dic s1)"
    by (simp_all add: extends_def keeps_length)
  with assms(1) show ?thesis by (fastforce simp: above_def)
qed

lemma step_child_store_frame:
  "extends (fst sg) (step_out (step_child_store a b sr mx act sg))"
proof -
  obtain s1 ac where c1: "cloneagent_store (fst sg) a = (s1, ac)"
    by (cases "cloneagent_store (fst sg) a")
  obtain s2 bc where c2: "cloneagent_store s1 b = (s2, bc)"
    by (cases "cloneagent_store s1 b")
  obtain s3 sc where c3: "clonestate_store s2 sr = (s3, sc)"
    by (cases "clonestate_store s2 sr")
  note p1 = cloneagent_store_props [OF c1] and p2 = cloneagent_store_props [OF c2]
  from c3 have s3: "s3 = s2\<lparr>bst := bst s2 @ [\<lparr>fieldtype = fieldtype (bst s2 ! sr),
        ashactive = ashactive (bst s2 ! sr), rocketactive = rocketactive (bst s2 ! sr)\<rparr>]\<rparr>"
    and sc: "sc = length (bst s2)"
    by (simp_all add: clonestate_store_def)
  have e23: "extends s2 s3" unfolding s3 by (simp add: extends_def keeps_def)
  have e02: "extends (fst sg) s2" using p1(1) p2(1) by (rule extends_trans)
  have e03: "extends (fst sg) s3" using e02 e23 by (rule extends_trans)
  have "ac < length (agt s1)" using p1(2,4) by simp
  from above_later [OF p1(3) this p2(1)] have "above (fst sg) s2 ac" .
  then have ab_a: "above (fst sg) s3 ac" unfolding s3 by (simp add: above_def)
  from above_weaken [OF p2(3) p1(1)] have "above (fst sg) s2 bc" .
  then have ab_b: "above (fst sg) s3 bc" unfolding s3 by (simp add: above_def)
  have "length (bst (fst sg)) \<le> length (bst s2)"
    using e02 by (simp add: extends_def keeps_length)
  with sc have bb: "length (bst (fst sg)) \<le> sc" by simp
  let ?x = "if mx then act else \<lparr>kind = ATTACK, arg = NoArg\<rparr>"
  let ?y = "if mx then \<lparr>kind = ATTACK, arg = NoArg\<rparr> else act"
  obtain s4 r4 where st: "stepbattle_simulation_store s3 ac bc sc ?x ?y (snd sg) = (s4, r4)"
    by (cases "stepbattle_simulation_store s3 ac bc sc ?x ?y (snd sg)")
  from stepbattle_store_frame [OF st ab_a ab_b bb e03] have e4: "extends (fst sg) s4" .
  from c1 c2 c3 st have "step_out (step_child_store a b sr mx act sg) = s4"
    by (cases r4) (simp_all add: step_child_store_def step_out_def Let_def)
  with e4 show ?thesis by simp
qed

lemma search_loop_frame:
  assumes ch: "\<And>a k al be sg. extends (fst sg) (child_out (child a k al be sg))"
  shows "extends (fst sg) (node_out (search_loop mx child acts k bv ba al be sg))"
proof (induction acts arbitrary: k bv ba al be sg)
  case Nil
  show ?case by (simp add: node_out_def extends_refl split: prod.splits)
next
  case (Cons a acts)
  show ?case
  proof (cases "child a k al be sg")
    case (Inl es)
    obtain e s1 where es: "es = (e, s1)" by (cases es)
    from ch [of sg a k al be] Inl es have "extends (fst sg) s1" by (simp add: child_out_def)
    with Inl es show ?thesis by (simp add: node_out_def)
  next
    case (Inr vs)
    obtain val s1 g1 where vs: "vs = (val, s1, g1)" by (cases vs)
    from ch [of sg a k al be] Inr vs have e1: "extends (fst sg) s1" by (simp add: child_out_def)
    let ?better = "if mx then val > bv else val < bv"
    let ?bv' = "if ?better then val else bv"
    let ?ba' = "if ?better then Some a else ba"
    let ?al' = "if mx then max al ?bv' else al"
    let ?be' = "if mx then be else min be ?bv'"
    show ?thesis
    proof (cases "?be' \<le> ?al'")
      case True
      with Inr vs have "search_loop mx child (a # acts) k bv ba al be sg = Inr (?bv', ?ba', s1, g1)"
        by (simp add: Let_def)
      with e1 show ?thesis by (simp add: node_out_def)
    next
      case False
      with Inr vs have "search_loop mx child (a # acts) k bv ba al be sg
                          = search_loop mx child acts (k + 1) ?bv' ?ba' ?al' ?be' (s1, g1)"
        by (simp add: Let_def)
      moreover from Cons.IH [of "(s1, g1)" "k + 1" ?bv' ?ba' ?al' ?be']
      have "extends s1 (node_out (search_loop mx child acts (k + 1) ?bv' ?ba' ?al' ?be' (s1, g1)))"
        by simp
      ultimately show ?thesis using e1 by (simp only: extends_trans)
    qed
  qed
qed

lemma recurse_store_frame:
  "extends (fst sg) (node_out (recurse_store shuf meisash ply a b s mx al be path sg))"
proof (induction ply arbitrary: a b s mx al be path sg)
  case 0
  have "is_terminal 0 (agent_at (fst sg) a) (agent_at (fst sg) b)" by (simp add: is_terminal_def)
  then show ?case
    by (subst recurse_store.simps) (simp add: node_out_def extends_refl split: prod.splits)
next
  case (Suc n)
  show ?case
  proof (cases "is_terminal (Suc n) (agent_at (fst sg) a) (agent_at (fst sg) b)")
    case True
    then show ?thesis
      by (subst recurse_store.simps) (simp add: node_out_def extends_refl split: prod.splits)
  next
    case False
    show ?thesis
    proof (cases "node_actions (agent_at (fst sg) a) (agent_at (fst sg) b) (bst (fst sg) ! s) mx")
      case (Inl e)
      with False show ?thesis
        by (subst recurse_store.simps) (simp add: node_out_def extends_refl)
    next
      case (Inr actions)
      let ?child = "\<lambda>act k alpha beta sg.
                     case step_child_store a b s mx act sg of
                       Inl e \<Rightarrow> Inl e
                     | Inr (aclone, bclone, sclone, sg') \<Rightarrow>
                         (case recurse_store shuf meisash (Suc n - 1) aclone bclone sclone (\<not> mx)
                                 alpha beta (k # path) sg' of
                            Inl e \<Rightarrow> Inl e
                          | Inr (val, _, sg'') \<Rightarrow> Inr (val, sg''))"
      have ch: "\<And>x k al be sg. extends (fst sg) (child_out (?child x k al be sg))"
      proof -
        fix x k al be sg
        show "extends (fst sg) (child_out (?child x k al be sg))"
        proof (cases "step_child_store a b s mx x sg")
          case (Inl es)
          with step_child_store_frame [of sg a b s mx x] show ?thesis
            by (simp add: child_out_def step_out_def)
        next
          case (Inr t)
          obtain ac bc sc s4 g4 where t: "t = (ac, bc, sc, s4, g4)" by (cases t)
          from step_child_store_frame [of sg a b s mx x] Inr t
          have e4: "extends (fst sg) s4" by (simp add: step_out_def)
          from Suc.IH [of "(s4, g4)" ac bc sc "\<not> mx" al be "k # path"]
          have e5: "extends s4 (node_out (recurse_store shuf meisash n ac bc sc (\<not> mx) al be (k # path) (s4, g4)))"
            by simp
          have "child_out (?child x k al be sg)
                  = node_out (recurse_store shuf meisash n ac bc sc (\<not> mx) al be (k # path) (s4, g4))"
            using Inr t by (simp add: child_out_def node_out_def split: sum.splits prod.splits)
          with e4 e5 show ?thesis by (simp only: extends_trans)
        qed
      qed
      have "recurse_store shuf meisash (Suc n) a b s mx al be path sg
              = search_loop mx ?child (shuf path actions) 0 (if mx then - (10 ^ 9) else 10 ^ 9) None al be sg"
        using False Inr by (subst recurse_store.simps) (simp add: Let_def)
      with search_loop_frame [of ?child sg mx "shuf path actions" 0 "if mx then - (10 ^ 9) else 10 ^ 9" None al be, OF ch]
      show ?thesis by simp
    qed
  qed
qed

lemma decide_action_store_frame:
  assumes "decide_action_store shuf me opp bs meisash depth sg = (s', r)"
  shows "extends (fst sg) s'"
proof -
  let ?res = "recurse_store shuf meisash depth (if meisash then me else opp) (if meisash then opp else me)
             bs meisash (- (10 ^ 9)) (10 ^ 9) [] sg"
  have "s' = node_out ?res"
  proof (cases ?res)
    case (Inl es)
    obtain e s1 where "es = (e, s1)" by (cases es)
    with Inl assms show ?thesis by (simp add: decide_action_store_def node_out_def)
  next
    case (Inr t)
    obtain v action s1 g1 where "t = (v, action, s1, g1)" by (cases t)
    with Inr assms show ?thesis by (simp add: decide_action_store_def node_out_def)
  qed
  with recurse_store_frame [of sg shuf meisash depth "if meisash then me else opp"
      "if meisash then opp else me" bs meisash "- (10 ^ 9)" "10 ^ 9" "[]"]
  show ?thesis by simp
qed

lemma agent_at_kept:
  assumes "extends s s'" and "agent_ok s r"
  shows "agent_at s' r = agent_at s r"
proof -
  from assms(1) have k: "keeps (agt s) (agt s')" "keeps (pok s) (pok s')" "keeps (dic s) (dic s')"
    by (simp_all add: extends_def)
  from assms(2) have r: "r < length (agt s)"
    and t: "\<forall>p \<in> set (oteam (agt s ! r)). p < length (pok s)"
    and e: "oelixirs (agt s ! r) < length (dic s)"
    by (simp_all add: agent_ok_def list_all_iff)
  have a: "agt s' ! r = agt s ! r" using k(1) r by (rule keeps_nth)
  have d: "dic s' ! oelixirs (agt s ! r) = dic s ! oelixirs (agt s ! r)" using k(3) e by (rule keeps_nth)
  have p: "map (\<lambda>p. pok s' ! p) (oteam (agt s ! r)) = map (\<lambda>p. pok s ! p) (oteam (agt s ! r))"
    using t keeps_nth [OF k(2)] by simp
  show ?thesis by (simp add: agent_at_def Let_def a d p)
qed

text \<open>
  Claim C10. decide\_action leaves its arguments as they were: in the store after the call,
  whether it returned an action or raised, the two agents passed in (their fields, every
  Pokemon of their teams, their elixir dictionaries) and the battle state passed in have the
  values they had before, and so has every other object that existed before the call; the
  search only creates new objects (the clones) and mutates those. The premises say that the
  three references denote existing objects.
\<close>

theorem C10_decide_action_leaves_arguments:
  assumes "decide_action_store shuf me opp bs meisash depth (s, g) = (s', r)"
    and "agent_ok s me" and "agent_ok s opp" and "bs < length (bst s)"
  shows "agent_at s' me = agent_at s me \<and> agent_at s' opp = agent_at s opp
         \<and> bst s' ! bs = bst s ! bs \<and> extends s s'"
proof -
  from decide_action_store_frame [OF assms(1)] have e: "extends s s'" by simp
  then have "keeps (bst s) (bst s')" by (simp add: extends_def)
  from keeps_nth [OF this assms(4)] agent_at_kept [OF e assms(2)] agent_at_kept [OF e assms(3)] e
  show ?thesis by simp
qed

theorem C10_decide_action_leaves_arguments_witness:
  "agent_at (fst (decide_action_store idshuf 0 1 0 True 2 (store0, const_rng 1))) 0 = agent_at store0 0
   \<and> agent_at (fst (decide_action_store idshuf 0 1 0 True 2 (store0, const_rng 1))) 1 = agent_at store0 1
   \<and> bst (fst (decide_action_store idshuf 0 1 0 True 2 (store0, const_rng 1))) ! 0 = bst store0 ! 0
   \<and> map hp (pok (step_out (step_child_store 0 1 0 True (baction ATTACK) (store0, const_rng 1))))
       = [30, 100, 25, 95]"
proof -
  let ?res = "decide_action_store idshuf 0 1 0 True 2 (store0, const_rng 1)"
  have c: "?res = (fst ?res, snd ?res)" by simp
  have 1: "agent_ok store0 0" by (simp add: agent_ok_def store0_def)
  have 2: "agent_ok store0 1" by (simp add: agent_ok_def store0_def)
  have 3: "0 < length (bst store0)" by (simp add: store0_def)
  have clones: "map hp (pok (step_out (step_child_store 0 1 0 True (baction ATTACK) (store0, const_rng 1))))
       = [30, 100, 25, 95]"
    by code_simp
  from C10_decide_action_leaves_arguments [OF c 1 2 3] clones show ?thesis by simp
qed

end
